theory Spec2Isabelle
  imports Main "HOL-Library.Sublist" "HOL-Library.AList" "HOL-Library.Multiset"
begin

section \<open>Text and paths\<close>

text \<open>
  Python text is modelled as \<open>string\<close>, a text being the bytes of its UTF-8 encoding:
  a character of ASCII is one byte, any other character (the box-drawing glyphs and the
  Chinese messages of the visualizer, the spaces outside ASCII) is the two to four bytes
  that encode it. The platform is POSIX: \<^verbatim>\<open>os.sep\<close> is the slash.
\<close>

definition sep :: char where
  "sep = CHR ''/''"

definition newline :: char where
  "newline = CHR 0x0A"

text \<open>\<^verbatim>\<open>s.endswith('/')\<close> and \<^verbatim>\<open>s.startswith(t)\<close>.\<close>

definition endswith_slash :: "string \<Rightarrow> bool" where
  "endswith_slash s = (s \<noteq> [] \<and> last s = CHR ''/'')"

definition startswith :: "string \<Rightarrow> string \<Rightarrow> bool" where
  "startswith s t = prefix t s"

text \<open>\<^verbatim>\<open>s.split(os.sep)\<close>: every separator cuts, empty pieces are kept, the result is never empty.\<close>

fun split_sep :: "string \<Rightarrow> string list" where
  "split_sep [] = [[]]"
| "split_sep (c # cs) =
     (if c = sep then [] # split_sep cs
      else (case split_sep cs of [] \<Rightarrow> [[c]] | w # ws \<Rightarrow> (c # w) # ws))"

text \<open>\<^verbatim>\<open>os.sep.join(parts)\<close>, the inverse used when a tree is flattened again.\<close>

fun join_sep :: "string list \<Rightarrow> string" where
  "join_sep [] = []"
| "join_sep [w] = w"
| "join_sep (w # ws) = w @ sep # join_sep ws"

text \<open>\<^verbatim>\<open>os.path.join(a, b)\<close> of posixpath, for two arguments.\<close>

definition path_join :: "string \<Rightarrow> string \<Rightarrow> string" where
  "path_join a b =
     (if b \<noteq> [] \<and> hd b = sep then b
      else if a = [] \<or> last a = sep then a @ b
      else a @ sep # b)"

text \<open>
  \<^verbatim>\<open>str.strip()\<close> removes, from both ends, the characters \<^verbatim>\<open>str.isspace\<close> holds for: the
  ASCII ones, and U+0085, U+00A0, U+1680, U+2000 to U+200A, U+2028, U+2029, U+202F,
  U+205F and U+3000, here as their UTF-8 encodings.
\<close>

definition space_codes :: "string list" where
  "space_codes =
     [[CHR 0x09], [CHR 0x0A], [CHR 0x0B], [CHR 0x0C], [CHR 0x0D],
      [CHR 0x1C], [CHR 0x1D], [CHR 0x1E], [CHR 0x1F], [CHR 0x20],
      [CHR 0xC2, CHR 0x85], [CHR 0xC2, CHR 0xA0], [CHR 0xE1, CHR 0x9A, CHR 0x80],
      [CHR 0xE2, CHR 0x80, CHR 0x80], [CHR 0xE2, CHR 0x80, CHR 0x81],
      [CHR 0xE2, CHR 0x80, CHR 0x82], [CHR 0xE2, CHR 0x80, CHR 0x83],
      [CHR 0xE2, CHR 0x80, CHR 0x84], [CHR 0xE2, CHR 0x80, CHR 0x85],
      [CHR 0xE2, CHR 0x80, CHR 0x86], [CHR 0xE2, CHR 0x80, CHR 0x87],
      [CHR 0xE2, CHR 0x80, CHR 0x88], [CHR 0xE2, CHR 0x80, CHR 0x89],
      [CHR 0xE2, CHR 0x80, CHR 0x8A], [CHR 0xE2, CHR 0x80, CHR 0xA8],
      [CHR 0xE2, CHR 0x80, CHR 0xA9], [CHR 0xE2, CHR 0x80, CHR 0xAF],
      [CHR 0xE2, CHR 0x81, CHR 0x9F], [CHR 0xE3, CHR 0x80, CHR 0x80]]"

function strip_left :: "string list \<Rightarrow> string \<Rightarrow> string" where
  "strip_left codes s =
     (case List.find (\<lambda>w. w \<noteq> [] \<and> prefix w s) codes of
        None \<Rightarrow> s
      | Some w \<Rightarrow> strip_left codes (drop (length w) s))"
  by pat_completeness auto
termination
proof (relation "measure (\<lambda>(codes, s). length s)")
  show "wf (measure (\<lambda>(codes, s). length s))" by simp
next
  fix codes :: "string list" and s w :: string
  assume "List.find (\<lambda>w. w \<noteq> [] \<and> prefix w s) codes = Some w"
  then have "w \<noteq> []" and "prefix w s" by (auto simp: find_Some_iff)
  then have "length (drop (length w) s) < length s"
    by (cases s) (auto simp: prefix_def)
  then show "((codes, drop (length w) s), (codes, s)) \<in> measure (\<lambda>(codes, s). length s)"
    by simp
qed

declare strip_left.simps [simp del]

definition strip :: "string \<Rightarrow> string" where
  "strip s = rev (strip_left (map rev space_codes) (rev (strip_left space_codes s)))"

text \<open>
  \<^verbatim>\<open>str.lower()\<close>: on text that is all ASCII it turns the letters A to Z into a to z and
  keeps the rest (\<open>ascii_lower\<close> for one such character); on any other text it is the
  library's (see \<open>unicode_lower\<close> and \<open>lower\<close> below).
\<close>

definition ascii_lower :: "char \<Rightarrow> char" where
  "ascii_lower c =
     (if (65::nat) \<le> of_char c \<and> of_char c \<le> (90::nat)
      then char_of (of_char c + (32::nat)) else c)"

definition is_ascii :: "string \<Rightarrow> bool" where
  "is_ascii s = list_all (\<lambda>c. of_char c < (128::nat)) s"

text \<open>The exceptions that appear.\<close>

datatype error =
  TypeError | IndexError | KeyError | ValueError | AttributeError | OverflowError | OSError

section \<open>The summarizer object and its surroundings\<close>

text \<open>
  The fields of \<^verbatim>\<open>CodeSummarizer\<close> that the traversal reads. \<^verbatim>\<open>ignore_patterns\<close> is a
  Python set; the list is the order in which one iteration happens to enumerate it.
  The two numbers are ints, as \<^verbatim>\<open>int(os.environ.get(...))\<close> gives them and the example
  configuration has them; nothing checks their range, so either may be zero or negative.
\<close>

record summarizer =
  root_dir :: string
  ignore_patterns :: "string list"
  max_retries :: int
  retry_delay :: int

text \<open>
  What the chat-completion request of one attempt comes to: it raises (or its response
  has no usable text), or it returns the text of the first choice.
\<close>

datatype api_result = ApiError | Response string

text \<open>
  The library functions the class calls are parameters: \<^verbatim>\<open>fnmatch.fnmatch(name, pat)\<close>,
  \<^verbatim>\<open>os.path.relpath(path, start)\<close>, \<^verbatim>\<open>str.lower()\<close> on text that is not all ASCII,
  what \<^verbatim>\<open>time.sleep(d)\<close> raises for a delay (\<open>None\<close> when it sleeps and returns), and the
  remote model, which answers the \<open>n\<close>-th request of the run for a file's content and
  path.
\<close>

record env =
  fnmatch :: "string \<Rightarrow> string \<Rightarrow> bool"
  relpath :: "string \<Rightarrow> string \<Rightarrow> string"
  unicode_lower :: "string \<Rightarrow> string"
  sleep_raises :: "int \<Rightarrow> error option"
  api :: "nat \<Rightarrow> string \<Rightarrow> string \<Rightarrow> api_result"

definition lower :: "env \<Rightarrow> string \<Rightarrow> string" where
  "lower E s = (if is_ascii s then map ascii_lower s else unicode_lower E s)"

subsection \<open>\<^verbatim>\<open>_should_ignore\<close>\<close>

text \<open>The loop over the patterns, with its two early returns.\<close>

fun ignore_loop :: "env \<Rightarrow> string \<Rightarrow> string list \<Rightarrow> bool" where
  "ignore_loop E relative_path [] = False"
| "ignore_loop E relative_path (pattern # rest) =
     (if fnmatch E relative_path pattern then True
      else if endswith_slash pattern \<and> startswith relative_path (butlast pattern) then True
      else ignore_loop E relative_path rest)"

definition should_ignore :: "env \<Rightarrow> summarizer \<Rightarrow> string \<Rightarrow> bool" where
  "should_ignore E self path =
     (let relative_path = relpath E path (root_dir self)
      in ignore_loop E relative_path (ignore_patterns self))"

section \<open>The tree builder\<close>

text \<open>
  A value stored in the nested dictionary: a summary, or a dictionary from path segments
  to values. A dictionary is the list of its items in insertion order;
  \<^verbatim>\<open>d[k] = v\<close> is \<^const>\<open>AList.update\<close> (the value is replaced in place when the key is
  there, the item is appended otherwise), \<^verbatim>\<open>d[k]\<close> is \<^const>\<open>map_of\<close>.
\<close>

datatype tree = Leaf string | Node "(string \<times> tree) list"

text \<open>
  The body of the loop of \<^verbatim>\<open>generate_tree_structure\<close> for one path, as a function of the
  dictionary \<^verbatim>\<open>current\<close> points to; it returns that dictionary as the statements leave it.
  When \<^verbatim>\<open>current\<close> has become a summary (a \<^verbatim>\<open>str\<close>), both \<^verbatim>\<open>current[part] = ...\<close> and
  \<^verbatim>\<open>current[part]\<close> raise \<^verbatim>\<open>TypeError\<close>, whichever the substring test \<^verbatim>\<open>part not in current\<close>
  selects.
\<close>

fun insert_path :: "string list \<Rightarrow> string \<Rightarrow> tree \<Rightarrow> error + tree" where
  "insert_path [] summary current = Inl IndexError"
| "insert_path [part] summary (Leaf s) = Inl TypeError"
| "insert_path [part] summary (Node items) =
     Inr (Node (AList.update part (Leaf summary) items))"
| "insert_path (part # rest) summary (Leaf s) = Inl TypeError"
| "insert_path (part # rest) summary (Node items) =
     (let items1 = (if part \<in> fst ` set items then items
                    else AList.update part (Node []) items)
      in case map_of items1 part of
           None \<Rightarrow> Inl KeyError
         | Some child \<Rightarrow>
             (case insert_path rest summary child of
                Inl e \<Rightarrow> Inl e
              | Inr child' \<Rightarrow> Inr (Node (AList.update part child' items1))))"

text \<open>The loop over \<^verbatim>\<open>self.summaries.items()\<close>, and the method.\<close>

fun build_loop :: "(string \<times> string) list \<Rightarrow> tree \<Rightarrow> error + tree" where
  "build_loop [] tree = Inr tree"
| "build_loop ((file_path, summary) # rest) tree =
     (case insert_path (split_sep file_path) summary tree of
        Inl e \<Rightarrow> Inl e
      | Inr tree' \<Rightarrow> build_loop rest tree')"

definition generate_tree_structure :: "(string \<times> string) list \<Rightarrow> error + tree" where
  "generate_tree_structure summaries = build_loop summaries (Node [])"

text \<open>
  Flattening a tree again, depth first: every leaf with the segments that lead to it.
  The number of leaves is counted on its own.
\<close>

fun leaves :: "tree \<Rightarrow> (string list \<times> string) list" where
  "leaves (Leaf s) = [([], s)]"
| "leaves (Node items) =
     concat (map (\<lambda>(k, child). map (\<lambda>(p, s). (k # p, s)) (leaves child)) items)"

fun count_leaves :: "tree \<Rightarrow> nat" where
  "count_leaves (Leaf s) = 1"
| "count_leaves (Node items) = sum_list (map (\<lambda>(k, child). count_leaves child) items)"

definition flatten :: "tree \<Rightarrow> (string \<times> string) list" where
  "flatten t = map (\<lambda>(p, s). (join_sep p, s)) (leaves t)"

text \<open>Every dictionary of a tree has pairwise different keys.\<close>

fun wf_tree :: "tree \<Rightarrow> bool" where
  "wf_tree (Leaf s) = True"
| "wf_tree (Node items) =
     (distinct (map fst items) \<and> list_all (\<lambda>(k, child). wf_tree child) items)"

section \<open>Traversal and summarization\<close>

text \<open>
  The part of the world \<^verbatim>\<open>process_directory\<close> changes: the flat mapping
  \<^verbatim>\<open>self.summaries\<close> (a dictionary in insertion order), the number of requests sent to the
  model so far, and the sequence of things done: a directory yielded by \<^verbatim>\<open>os.walk\<close>, a
  file opened for reading, a request for a file, a completed \<^verbatim>\<open>time.sleep\<close>. Logging is
  left out.
\<close>

datatype event = Visit string | ReadFile string | Request string | Sleep int

record state =
  summaries :: "(string \<times> string) list"
  requests :: nat
  trace :: "event list"

text \<open>
  A directory tree on disk. The content of a file is \<open>None\<close> when opening, reading or
  decoding it raises. The entries of a directory are in the order the listing gives.
\<close>

datatype node = File "string option" | Dir "(string \<times> node) list"

subsection \<open>\<^verbatim>\<open>is_text_file\<close>\<close>

text \<open>
  \<^verbatim>\<open>Path(file_path).suffix\<close>: the final component from its last dot on, unless that dot
  is the first or the last character of the component or there is none. The final
  component is taken after the last separator (the paths here never end in one).
\<close>

fun rfind_dot :: "string \<Rightarrow> nat option" where
  "rfind_dot [] = None"
| "rfind_dot (c # cs) =
     (case rfind_dot cs of
        Some i \<Rightarrow> Some (Suc i)
      | None \<Rightarrow> if c = CHR ''.'' then Some 0 else None)"

definition path_name :: "string \<Rightarrow> string" where
  "path_name file_path = last (split_sep file_path)"

definition suffix_of :: "string \<Rightarrow> string" where
  "suffix_of file_path =
     (let name = path_name file_path
      in case rfind_dot name of
           None \<Rightarrow> []
         | Some i \<Rightarrow> if 0 < i \<and> i < length name - 1 then drop i name else [])"

definition text_extensions :: "string list" where
  "text_extensions =
     [''.py'', ''.js'', ''.ts'', ''.java'', ''.cpp'', ''.h'', ''.cs'', ''.go'',
      ''.rb'', ''.php'', ''.swift'', ''.kt'', ''.rs'', ''.md'', ''.txt'', ''.json'',
      ''.xml'', ''.yaml'', ''.yml'', ''.html'', ''.css'', ''.scss'', ''.less'']"

definition is_text_file :: "env \<Rightarrow> string \<Rightarrow> bool" where
  "is_text_file E file_path = (lower E (suffix_of file_path) \<in> set text_extensions)"

subsection \<open>\<^verbatim>\<open>read_file_content\<close>\<close>

text \<open>The exception of a failed read is caught inside; the result is then \<open>None\<close>.\<close>

definition read_file_content ::
  "string \<Rightarrow> string option \<Rightarrow> state \<Rightarrow> string option \<times> state" where
  "read_file_content file_path on_disk st =
     (on_disk, st\<lparr>trace := trace st @ [ReadFile file_path]\<rparr>)"

subsection \<open>\<^verbatim>\<open>get_code_summary\<close>\<close>

text \<open>
  \<^verbatim>\<open>time.sleep(d)\<close>: it raises (\<^verbatim>\<open>ValueError\<close> for a negative delay, \<^verbatim>\<open>OverflowError\<close> or
  \<^verbatim>\<open>OSError\<close> for one that is too large, as the library and the platform decide), or it
  returns after the delay.
\<close>

definition sleep :: "env \<Rightarrow> int \<Rightarrow> state \<Rightarrow> (error + unit) \<times> state" where
  "sleep E d st =
     (case sleep_raises E d of
        Some e \<Rightarrow> (Inl e, st)
      | None \<Rightarrow> (Inr (), st\<lparr>trace := trace st @ [Sleep d]\<rparr>))"

text \<open>
  One pass through the body of \<^verbatim>\<open>for attempt in range(self.max_retries)\<close>: the loop goes
  on, the method returns, or an exception leaves the method. \<open>on_except\<close> is the
  \<^verbatim>\<open>except Exception\<close> clause; it also catches what the \<^verbatim>\<open>sleep\<close> inside \<^verbatim>\<open>try\<close> raises, and
  what its own \<^verbatim>\<open>sleep\<close> raises is not caught by anything.
\<close>

datatype step = Continue | Return "string option" | Raise error

definition on_except :: "env \<Rightarrow> summarizer \<Rightarrow> int \<Rightarrow> state \<Rightarrow> step \<times> state" where
  "on_except E self attempt st =
     (if attempt < max_retries self - 1
      then (case sleep E (retry_delay self) st of
              (Inl e, st') \<Rightarrow> (Raise e, st')
            | (Inr u, st') \<Rightarrow> (Continue, st'))
      else (Return None, st))"

definition attempt_once ::
  "env \<Rightarrow> summarizer \<Rightarrow> string \<Rightarrow> string \<Rightarrow> int \<Rightarrow> state \<Rightarrow> step \<times> state" where
  "attempt_once E self content file_path attempt st =
     (let st1 = st\<lparr>requests := requests st + 1, trace := trace st @ [Request file_path]\<rparr>
      in case api E (requests st) content file_path of
           ApiError \<Rightarrow> on_except E self attempt st1
         | Response reply \<Rightarrow>
             (let summary = strip reply
              in if summary \<noteq> [] then (Return (Some summary), st1)
                 else (case sleep E (retry_delay self) st1 of
                         (Inl e, st2) \<Rightarrow> on_except E self attempt st2
                       | (Inr u, st2) \<Rightarrow> (Continue, st2))))"

fun retry_loop ::
  "env \<Rightarrow> summarizer \<Rightarrow> string \<Rightarrow> string \<Rightarrow> int list \<Rightarrow> state
     \<Rightarrow> (error + string option) \<times> state" where
  "retry_loop E self content file_path [] st = (Inr None, st)"
| "retry_loop E self content file_path (attempt # rest) st =
     (case attempt_once E self content file_path attempt st of
        (Continue, st') \<Rightarrow> retry_loop E self content file_path rest st'
      | (Return r, st') \<Rightarrow> (Inr r, st')
      | (Raise e, st') \<Rightarrow> (Inl e, st'))"

definition get_code_summary ::
  "env \<Rightarrow> summarizer \<Rightarrow> string \<Rightarrow> string \<Rightarrow> state \<Rightarrow> (error + string option) \<times> state" where
  "get_code_summary E self content file_path st =
     retry_loop E self content file_path (map int [0 ..< nat (max_retries self)]) st"

text \<open>
  Notions for the retry loop: an attempt that fails (the request raises, or its reply is
  blank), and what \<open>n\<close> attempts for a file with a sleep of \<open>d\<close> seconds between
  consecutive ones leave in the trace, up to the last request.
\<close>

definition failed_attempt :: "api_result \<Rightarrow> bool" where
  "failed_attempt r = (case r of ApiError \<Rightarrow> True | Response reply \<Rightarrow> strip reply = [])"

definition between_attempts :: "string \<Rightarrow> int \<Rightarrow> nat \<Rightarrow> event list" where
  "between_attempts file_path d n =
     (if n = 0 then []
      else concat (replicate (n - 1) [Request file_path, Sleep d]) @ [Request file_path])"

definition is_request :: "event \<Rightarrow> bool" where
  "is_request e = (case e of Request p \<Rightarrow> True | _ \<Rightarrow> False)"

subsection \<open>\<^verbatim>\<open>process_directory\<close>\<close>

text \<open>The body of \<^verbatim>\<open>for file in files\<close>, for a file with the given content on disk.\<close>

definition process_file ::
  "env \<Rightarrow> summarizer \<Rightarrow> string \<Rightarrow> string \<Rightarrow> string option \<Rightarrow> state
     \<Rightarrow> (error + unit) \<times> state" where
  "process_file E self root file on_disk st =
     (let file_path = path_join root file
      in if \<not> should_ignore E self file_path \<and> is_text_file E file_path
         then (case read_file_content file_path on_disk st of
                 (None, st1) \<Rightarrow> (Inr (), st1)
               | (Some content, st1) \<Rightarrow>
                   if content = [] then (Inr (), st1)
                   else (case get_code_summary E self content file_path st1 of
                           (Inl e, st2) \<Rightarrow> (Inl e, st2)
                         | (Inr None, st2) \<Rightarrow> (Inr (), st2)
                         | (Inr (Some summary), st2) \<Rightarrow>
                             if summary = [] then (Inr (), st2)
                             else (let relative_path = relpath E file_path (root_dir self)
                                   in (Inr (), st2\<lparr>summaries :=
                                         AList.update relative_path summary (summaries st2)\<rparr>))))
         else (Inr (), st))"

fun process_files ::
  "env \<Rightarrow> summarizer \<Rightarrow> string \<Rightarrow> (string \<times> string option) list \<Rightarrow> state
     \<Rightarrow> (error + unit) \<times> state" where
  "process_files E self root [] st = (Inr (), st)"
| "process_files E self root ((file, on_disk) # rest) st =
     (case process_file E self root file on_disk st of
        (Inl e, st') \<Rightarrow> (Inl e, st')
      | (Inr u, st') \<Rightarrow> process_files E self root rest st')"

text \<open>
  What \<^verbatim>\<open>os.walk\<close> lists for a directory: the names of its subdirectories (here with what
  is in them) and the names of its other entries.
\<close>

fun dirs_of :: "(string \<times> node) list \<Rightarrow> (string \<times> (string \<times> node) list) list" where
  "dirs_of [] = []"
| "dirs_of ((name, Dir sub) # es) = (name, sub) # dirs_of es"
| "dirs_of ((name, File c) # es) = dirs_of es"

fun files_of :: "(string \<times> node) list \<Rightarrow> (string \<times> string option) list" where
  "files_of [] = []"
| "files_of ((name, File c) # es) = (name, c) # files_of es"
| "files_of ((name, Dir sub) # es) = files_of es"

fun weight :: "node \<Rightarrow> nat" where
  "weight (File c) = 1"
| "weight (Dir es) = Suc (sum_list (map (\<lambda>(name, n). weight n) es))"

definition dirs_weight :: "(string \<times> (string \<times> node) list) list \<Rightarrow> nat" where
  "dirs_weight ds = sum_list (map (\<lambda>(name, sub). weight (Dir sub)) ds)"

lemma dirs_weight_filter: "dirs_weight (filter P ds) \<le> dirs_weight ds"
  by (induction ds) (auto simp: dirs_weight_def)

lemma dirs_weight_dirs_of:
  "dirs_weight (dirs_of es) \<le> sum_list (map (\<lambda>(name, n). weight n) es)"
  by (induction es rule: dirs_of.induct) (auto simp: dirs_weight_def)

text \<open>
  \<^verbatim>\<open>os.walk\<close> top-down with the body of the loop of \<^verbatim>\<open>process_directory\<close>: the directory
  \<open>root\<close> is yielded with its lists, the body replaces the list of subdirectories by
  those that are not ignored and handles the files, and the walk then goes into the
  subdirectories that are left, in order.
\<close>

function walk ::
  "env \<Rightarrow> summarizer \<Rightarrow> string \<Rightarrow> (string \<times> node) list \<Rightarrow> state \<Rightarrow> (error + unit) \<times> state"
and walk_dirs ::
  "env \<Rightarrow> summarizer \<Rightarrow> string \<Rightarrow> (string \<times> (string \<times> node) list) list \<Rightarrow> state
     \<Rightarrow> (error + unit) \<times> state"
where
  "walk E self root entries st =
     (let dirs = filter (\<lambda>(d, sub). \<not> should_ignore E self (path_join root d)) (dirs_of entries);
          st0 = st\<lparr>trace := trace st @ [Visit root]\<rparr>
      in case process_files E self root (files_of entries) st0 of
           (Inl e, st1) \<Rightarrow> (Inl e, st1)
         | (Inr u, st1) \<Rightarrow> walk_dirs E self root dirs st1)"
| "walk_dirs E self root [] st = (Inr (), st)"
| "walk_dirs E self root ((d, sub) # rest) st =
     (case walk E self (path_join root d) sub st of
        (Inl e, st') \<Rightarrow> (Inl e, st')
      | (Inr u, st') \<Rightarrow> walk_dirs E self root rest st')"
  by pat_completeness auto
termination
proof (relation "measure (\<lambda>x. case x of
          Inl (E, self, root, entries, st) \<Rightarrow> 2 * sum_list (map (\<lambda>(name, n). weight n) entries) + 1
        | Inr (E, self, root, ds, st) \<Rightarrow> 2 * dirs_weight ds)")
  show "wf (measure (\<lambda>x. case x of
          Inl (E, self, root, entries, st) \<Rightarrow> 2 * sum_list (map (\<lambda>(name, n). weight n) entries) + 1
        | Inr (E, self, root, ds, st) \<Rightarrow> 2 * dirs_weight ds))"
    by simp
next
  fix E self root entries st x xa y x2
  assume "x = filter (\<lambda>(d, sub). \<not> should_ignore E self (path_join root d)) (dirs_of entries)"
  then have "dirs_weight x \<le> sum_list (map (\<lambda>(name, n). weight n) entries)"
    using dirs_weight_filter dirs_weight_dirs_of le_trans by blast
  then show "(Inr (E, self, root, x, y), Inl (E, self, root, entries, st))
       \<in> measure (\<lambda>x. case x of
          Inl (E, self, root, entries, st) \<Rightarrow> 2 * sum_list (map (\<lambda>(name, n). weight n) entries) + 1
        | Inr (E, self, root, ds, st) \<Rightarrow> 2 * dirs_weight ds)"
    by simp
qed (auto simp: dirs_weight_def)

definition process_directory ::
  "env \<Rightarrow> summarizer \<Rightarrow> (string \<times> node) list \<Rightarrow> state \<Rightarrow> (error + unit) \<times> state" where
  "process_directory E self entries st = walk E self (root_dir self) entries st"

section \<open>The tree visualizer\<close>

text \<open>
  What \<^verbatim>\<open>json.load\<close> can return, as far as the visualizer tells values apart: a string, an
  object (its items in order), or any other value (a number, a boolean, \<^verbatim>\<open>null\<close>, an
  array), of which only the truth value matters. \<open>to_json\<close> is the value read back from
  the file the summarizer wrote for a tree.
\<close>

datatype json = JStr string | JObj "(string \<times> json) list" | JOther bool

fun truthy :: "json \<Rightarrow> bool" where
  "truthy (JStr s) = (s \<noteq> [])"
| "truthy (JObj items) = (items \<noteq> [])"
| "truthy (JOther b) = b"

fun to_json :: "tree \<Rightarrow> json" where
  "to_json (Leaf s) = JStr s"
| "to_json (Node items) = JObj (map (\<lambda>(k, child). (k, to_json child)) items)"

text \<open>The literals of the module, the ones outside ASCII as UTF-8.\<close>

definition connector_last :: string where
  "connector_last = [CHR 0xE2, CHR 0x94, CHR 0x94, CHR 0xE2, CHR 0x94, CHR 0x80,
                     CHR 0xE2, CHR 0x94, CHR 0x80, CHR 0x20]"

definition connector_mid :: string where
  "connector_mid = [CHR 0xE2, CHR 0x94, CHR 0x9C, CHR 0xE2, CHR 0x94, CHR 0x80,
                    CHR 0xE2, CHR 0x94, CHR 0x80, CHR 0x20]"

definition indent_last :: string where
  "indent_last = ''    ''"

definition indent_mid :: string where
  "indent_mid = [CHR 0xE2, CHR 0x94, CHR 0x82, CHR 0x20, CHR 0x20, CHR 0x20]"

definition title :: string where
  "title = [CHR 0xE4, CHR 0xBB, CHR 0xA3, CHR 0xE7, CHR 0xA2, CHR 0xBC, CHR 0xE6, CHR 0x91,
            CHR 0x98, CHR 0xE8, CHR 0xA6, CHR 0x81, CHR 0xE6, CHR 0xA8, CHR 0xB9, CHR 0xE7,
            CHR 0x8B, CHR 0x80, CHR 0xE7, CHR 0xB5, CHR 0x90, CHR 0xE6, CHR 0xA7, CHR 0x8B]"

definition rule_line :: string where
  "rule_line = ''==============''"

definition msg_no_data :: string where
  "msg_no_data = [CHR 0xE7, CHR 0x84, CHR 0xA1, CHR 0xE6, CHR 0x95, CHR 0xB8, CHR 0xE6, CHR 0x93,
                  CHR 0x9A, CHR 0xE5, CHR 0x8F, CHR 0xAF, CHR 0xE8, CHR 0xA6, CHR 0x96, CHR 0xE5,
                  CHR 0x8C, CHR 0x96]"

definition msg_load_failed :: string where
  "msg_load_failed = [CHR 0xE8, CHR 0xAE, CHR 0x80, CHR 0xE5, CHR 0x8F, CHR 0x96, CHR 0x4A,
                      CHR 0x53, CHR 0x4F, CHR 0x4E, CHR 0xE6, CHR 0x96, CHR 0x87, CHR 0xE4,
                      CHR 0xBB, CHR 0xB6, CHR 0xE5, CHR 0xA4, CHR 0xB1, CHR 0xE6, CHR 0x95,
                      CHR 0x97, CHR 0x3A, CHR 0x20]"

definition msg_saved :: string where
  "msg_saved = [CHR 0xE6, CHR 0xA8, CHR 0xB9, CHR 0xE7, CHR 0x8B, CHR 0x80, CHR 0xE7, CHR 0xB5,
                CHR 0x90, CHR 0xE6, CHR 0xA7, CHR 0x8B, CHR 0xE5, CHR 0xB7, CHR 0xB2, CHR 0xE4,
                CHR 0xBF, CHR 0x9D, CHR 0xE5, CHR 0xAD, CHR 0x98, CHR 0xE5, CHR 0x88, CHR 0xB0,
                CHR 0x3A, CHR 0x20]"

definition msg_write_failed :: string where
  "msg_write_failed = [CHR 0xE7, CHR 0x94, CHR 0x9F, CHR 0xE6, CHR 0x88, CHR 0x90, CHR 0xE6,
                       CHR 0xA8, CHR 0xB9, CHR 0xE7, CHR 0x8B, CHR 0x80, CHR 0xE7, CHR 0xB5,
                       CHR 0x90, CHR 0xE6, CHR 0xA7, CHR 0x8B, CHR 0xE6, CHR 0x96, CHR 0x87,
                       CHR 0xE4, CHR 0xBB, CHR 0xB6, CHR 0xE5, CHR 0xA4, CHR 0xB1, CHR 0xE6,
                       CHR 0x95, CHR 0x97, CHR 0x3A, CHR 0x20]"

text \<open>\<^verbatim>\<open>s.replace('\n', ' | ')\<close>.\<close>

definition replace_newline :: "string \<Rightarrow> string" where
  "replace_newline s = concat (map (\<lambda>c. if c = newline then '' | '' else [c]) s)"

subsection \<open>\<^verbatim>\<open>_visualize_tree_recursive\<close>\<close>

text \<open>
  The loop over the items of a dictionary: the text written to the file object so far,
  and the exception that ended the writing, if one did. A value that is neither a
  dictionary nor a string has no \<^verbatim>\<open>strip\<close>; the call raises before the line is written.
  An item is the last one exactly when no item follows it.
\<close>

fun visualize_items :: "(string \<times> json) list \<Rightarrow> string \<Rightarrow> string \<times> error option" where
  "visualize_items [] pfx = ([], None)"
| "visualize_items ((key, JObj sub) # rest) pfx =
     (let is_last_item = (rest = []);
          connector = (if is_last_item then connector_last else connector_mid);
          line = pfx @ connector @ key @ ''/'' @ [newline];
          new_prefix = pfx @ (if is_last_item then indent_last else indent_mid)
      in case visualize_items sub new_prefix of
           (out, Some e) \<Rightarrow> (line @ out, Some e)
         | (out, None) \<Rightarrow>
             (case visualize_items rest pfx of
                (out', r) \<Rightarrow> (line @ out @ out', r)))"
| "visualize_items ((key, JStr s) # rest) pfx =
     (let is_last_item = (rest = []);
          connector = (if is_last_item then connector_last else connector_mid);
          summary = replace_newline (strip s);
          line = pfx @ connector @ key @ ''    '' @ summary @ [newline]
      in case visualize_items rest pfx of
           (out', r) \<Rightarrow> (line @ out', r))"
| "visualize_items ((key, JOther b) # rest) pfx = ([], Some AttributeError)"

text \<open>The method itself: \<^verbatim>\<open>data.items()\<close> exists for a dictionary only.\<close>

definition visualize_tree_recursive :: "json \<Rightarrow> string \<Rightarrow> string \<times> error option" where
  "visualize_tree_recursive data pfx =
     (case data of
        JObj items \<Rightarrow> visualize_items items pfx
      | JStr s \<Rightarrow> ([], Some AttributeError)
      | JOther b \<Rightarrow> ([], Some AttributeError))"

subsection \<open>\<^verbatim>\<open>load_json\<close>, \<^verbatim>\<open>visualize\<close>, \<^verbatim>\<open>print_tree\<close>\<close>

text \<open>
  The object, the world it acts on (the text files by path, and what has been printed
  to standard output), and what the surroundings decide: what opening and parsing the
  input comes to (the text of the exception, or the value), whether opening the output
  file for writing raises (then with the text of the exception), and the text of an
  exception raised while rendering.
\<close>

record visualizer =
  json_file :: string
  output_file :: string

record world =
  files :: "string \<Rightarrow> string option"
  stdout :: string

record surroundings =
  load_outcome :: "string + json"
  open_error :: "string option"
  error_text :: "error \<Rightarrow> string"

definition py_print :: "string \<Rightarrow> world \<Rightarrow> world" where
  "py_print s w = w\<lparr>stdout := stdout w @ s @ [newline]\<rparr>"

definition load_json :: "surroundings \<Rightarrow> world \<Rightarrow> json \<times> world" where
  "load_json V w =
     (case load_outcome V of
        Inr data \<Rightarrow> (data, w)
      | Inl msg \<Rightarrow> (JObj [], py_print (msg_load_failed @ msg) w))"

definition visualize :: "surroundings \<Rightarrow> visualizer \<Rightarrow> world \<Rightarrow> world" where
  "visualize V self w =
     (case load_json V w of
        (data, w1) \<Rightarrow>
          if \<not> truthy data then py_print msg_no_data w1
          else (case open_error V of
                  Some msg \<Rightarrow> py_print (msg_write_failed @ msg) w1
                | None \<Rightarrow>
                    (case visualize_tree_recursive data [] of
                       (body, r) \<Rightarrow>
                         (let header = title @ [newline] @ rule_line @ [newline, newline];
                              w2 = w1\<lparr>files := (files w1)(output_file self \<mapsto> header @ body)\<rparr>
                          in case r of
                               None \<Rightarrow> py_print (msg_saved @ output_file self) w2
                             | Some e \<Rightarrow> py_print (msg_write_failed @ error_text V e) w2))))"

text \<open>Nothing catches an exception in \<^verbatim>\<open>print_tree\<close>: it leaves the method.\<close>

definition print_tree :: "surroundings \<Rightarrow> world \<Rightarrow> error option \<times> world" where
  "print_tree V w =
     (case load_json V w of
        (data, w1) \<Rightarrow>
          if \<not> truthy data then (None, py_print msg_no_data w1)
          else (let w2 = py_print title w1;
                    w3 = py_print (rule_line @ [newline]) w2
                in case visualize_tree_recursive data [] of
                     (output, Some e) \<Rightarrow> (Some e, w3)
                   | (output, None) \<Rightarrow> (None, py_print output w3)))"

section \<open>Notions used to state the properties\<close>

text \<open>
  Helper for the visualizer: the items whose rendering meets no value other than a
  dictionary or a string.
\<close>

fun renderable :: "(string \<times> json) list \<Rightarrow> bool" where
  "renderable [] = True"
| "renderable ((key, JObj sub) # rest) = (renderable sub \<and> renderable rest)"
| "renderable ((key, JStr s) # rest) = renderable rest"
| "renderable ((key, JOther b) # rest) = False"

text \<open>
  The leaves of a dictionary at any depth, each with its key, in the order they are met,
  and the line of a leaf before the line feed that ends it.
\<close>

fun leaves_of :: "(string \<times> json) list \<Rightarrow> (string \<times> string) list" where
  "leaves_of [] = []"
| "leaves_of ((key, JObj sub) # rest) = leaves_of sub @ leaves_of rest"
| "leaves_of ((key, JStr s) # rest) = (key, s) # leaves_of rest"
| "leaves_of ((key, JOther b) # rest) = leaves_of rest"

definition leaf_line :: "string \<Rightarrow> string \<Rightarrow> string \<Rightarrow> string \<Rightarrow> string" where
  "leaf_line pfx connector key s = pfx @ connector @ key @ ''    '' @ replace_newline (strip s)"

text \<open>
  Two texts that differ at most in the case of their ASCII letters.
\<close>

definition is_letter :: "char \<Rightarrow> bool" where
  "is_letter c =
     ((65::nat) \<le> of_char c \<and> of_char c \<le> (90::nat)
      \<or> (97::nat) \<le> of_char c \<and> of_char c \<le> (122::nat))"

definition same_letter :: "char \<Rightarrow> char \<Rightarrow> bool" where
  "same_letter a b =
     (a = b \<or> is_letter a \<and> is_letter b
              \<and> (of_char a + (32::nat) = of_char b \<or> of_char b + (32::nat) = of_char a))"

definition same_ignoring_case :: "string \<Rightarrow> string \<Rightarrow> bool" where
  "same_ignoring_case a b = list_all2 same_letter a b"

text \<open>
  Helpers for the traversal. \<open>remove_at names entries\<close> is the directory tree without
  the directories found by going down from the top through the names in \<open>names\<close>;
  \<open>visits\<close> gives the directories a trace says were yielded by the walk.
\<close>

definition is_dir :: "node \<Rightarrow> bool" where
  "is_dir n = (case n of Dir sub \<Rightarrow> True | File c \<Rightarrow> False)"

definition drop_dir :: "string \<Rightarrow> (string \<times> node) list \<Rightarrow> (string \<times> node) list" where
  "drop_dir name entries = filter (\<lambda>(m, n). \<not> (m = name \<and> is_dir n)) entries"

definition in_dir ::
  "string \<Rightarrow> ((string \<times> node) list \<Rightarrow> (string \<times> node) list) \<Rightarrow> (string \<times> node) list
     \<Rightarrow> (string \<times> node) list" where
  "in_dir name f entries =
     map (\<lambda>(m, n). case n of
                      Dir sub \<Rightarrow> if m = name then (m, Dir (f sub)) else (m, n)
                    | File c \<Rightarrow> (m, n)) entries"

fun remove_at :: "string list \<Rightarrow> (string \<times> node) list \<Rightarrow> (string \<times> node) list" where
  "remove_at [] entries = entries"
| "remove_at [name] entries = drop_dir name entries"
| "remove_at (name # names) entries = in_dir name (remove_at names) entries"

definition visits :: "event list \<Rightarrow> string list" where
  "visits tr = concat (map (\<lambda>e. case e of Visit d \<Rightarrow> [d] | _ \<Rightarrow> []) tr)"

text \<open>
  Helpers for talking about the leaves of a dictionary: a leaf whose path starts with the
  key \<open>k\<close>, a leaf of a child seen from the parent under \<open>k\<close>, and an entry of the flat
  mapping with its path split into segments.
\<close>

definition head_is :: "string \<Rightarrow> (string list \<times> string) \<Rightarrow> bool" where
  "head_is k e = prefix [k] (fst e)"

definition under :: "string \<Rightarrow> (string list \<times> string) \<Rightarrow> (string list \<times> string)" where
  "under k e = (k # fst e, snd e)"

definition segs :: "string \<times> string \<Rightarrow> string list \<times> string" where
  "segs e = (split_sep (fst e), snd e)"

section \<open>Stand-ins for the library, used at concrete inputs\<close>

text \<open>
  A glob matcher for patterns built from literal characters, \<^verbatim>\<open>?\<close> and \<^verbatim>\<open>*\<close> (on such
  patterns \<^verbatim>\<open>fnmatch\<close> on POSIX does the same), and \<^verbatim>\<open>relpath\<close> for a path that was
  formed by joining names onto the start directory.
\<close>

fun glob :: "string \<Rightarrow> string \<Rightarrow> bool" where
  "glob [] [] = True"
| "glob (c # cs) [] = False"
| "glob [] (p # ps) = (p = CHR ''*'' \<and> glob [] ps)"
| "glob (c # cs) (p # ps) =
     (if p = CHR ''*'' then glob (c # cs) ps \<or> glob cs (p # ps)
      else (p = CHR ''?'' \<or> p = c) \<and> glob cs ps)"

definition relpath_under :: "string \<Rightarrow> string \<Rightarrow> string" where
  "relpath_under path start =
     (if path = start then ''.''
      else if prefix (start @ [sep]) path then drop (length start + 1) path
      else path)"

text \<open>
  \<^verbatim>\<open>str.lower()\<close> as far as the Kelvin sign U+212A goes, which becomes the letter k, and
  \<^verbatim>\<open>time.sleep\<close> as CPython 3.11 has it for an \<^verbatim>\<open>int\<close>: the delay in nanoseconds has to fit
  into 64 bits, and must not be negative.
\<close>

fun kelvin_lower :: "string \<Rightarrow> string" where
  "kelvin_lower (a # b # c # s) =
     (if [a, b, c] = [CHR 0xE2, CHR 0x84, CHR 0xAA] then CHR ''k'' # kelvin_lower s
      else ascii_lower a # kelvin_lower (b # c # s))"
| "kelvin_lower (a # s) = ascii_lower a # kelvin_lower s"
| "kelvin_lower [] = []"

definition kelvin_name :: string where
  "kelvin_name = ''a.'' @ [CHR 0xE2, CHR 0x84, CHR 0xAA] @ ''t''"

definition cpython_sleep :: "int \<Rightarrow> error option" where
  "cpython_sleep d =
     (if d * 1000000000 < - (2 ^ 63) \<or> 2 ^ 63 - 1 < d * 1000000000 then Some OverflowError
      else if d < 0 then Some ValueError
      else None)"

text \<open>
  A model that always raises and one that always answers with a blank (an ideographic
  space U+3000, a space, a no-break space U+00A0 and a line feed), the state before
  a run, a small directory tree, and an object whose ignore rules are a file pattern and
  a directory rule.
\<close>

definition no_api :: "nat \<Rightarrow> string \<Rightarrow> string \<Rightarrow> api_result" where
  "no_api n content file_path = ApiError"

definition posix :: env where
  "posix = \<lparr> fnmatch = glob, relpath = relpath_under, unicode_lower = kelvin_lower,
             sleep_raises = cpython_sleep, api = no_api \<rparr>"

definition blank_reply :: string where
  "blank_reply = [CHR 0xE3, CHR 0x80, CHR 0x80, CHR 0x20, CHR 0xC2, CHR 0xA0, newline]"

definition blank_api :: "nat \<Rightarrow> string \<Rightarrow> string \<Rightarrow> api_result" where
  "blank_api n content file_path = Response blank_reply"

definition posix_blank :: env where
  "posix_blank = \<lparr> fnmatch = glob, relpath = relpath_under, unicode_lower = kelvin_lower,
                   sleep_raises = cpython_sleep, api = blank_api \<rparr>"

definition start :: state where
  "start = \<lparr> summaries = [], requests = 0, trace = [] \<rparr>"

definition tree1 :: "(string \<times> node) list" where
  "tree1 = [(''a.py'', File (Some ''x = 1'')),
            (''build'', Dir [(''gen.py'', File (Some ''y = 2'')), (''deep'', Dir [(''z.py'', File None)])]),
            (''src'', Dir [(''b.py'', File (Some [])), (''build'', Dir [(''c.py'', File None)])])]"

definition demo :: summarizer where
  "demo = \<lparr> root_dir = ''.'', ignore_patterns = [''*.pyc'', ''build/''],
             max_retries = 3, retry_delay = 5 \<rparr>"

definition neg_delay :: summarizer where
  "neg_delay = \<lparr> root_dir = ''.'', ignore_patterns = [''*.pyc'', ''build/''],
                  max_retries = 3, retry_delay = - 1 \<rparr>"

text \<open>
  For the visualizer: the tree of a small run as read back from its file and the text
  rendered for it with its header, a tree with a summary whose lines end in a carriage
  return and a line feed, surroundings
  in which the input loads and the output opens, surroundings in which the input cannot
  be read, the default object, a world with no files, and one with an output file of an
  earlier run.
\<close>

definition summary_tree :: json where
  "summary_tree = to_json (Node [(''a.py'', Leaf ''desc A''), (''sub'', Node [(''b.py'', Leaf ''line1\<newline>line2\<newline>'')])])"

definition rendered_summary_tree :: string where
  "rendered_summary_tree =
     title @ [newline] @ rule_line @ [newline] @ [newline]
       @ connector_mid @ ''a.py    desc A'' @ [newline]
       @ connector_last @ ''sub/'' @ [newline]
       @ ''    '' @ connector_last @ ''b.py    line1 | line2'' @ [newline]"

definition carriage_return :: char where
  "carriage_return = CHR 0x0D"

definition crlf_tree :: json where
  "crlf_tree = JObj [(''src'', JObj [(''notes.md'',
                 JStr (''line1'' @ [carriage_return, newline] @ ''line2'' @ [newline]))])]"

definition quiet :: surroundings where
  "quiet = \<lparr> load_outcome = Inr summary_tree, open_error = None, error_text = (\<lambda>e. []) \<rparr>"

definition missing :: surroundings where
  "missing = \<lparr> load_outcome = Inl ''No such file'', open_error = None, error_text = (\<lambda>e. []) \<rparr>"

definition tv :: visualizer where
  "tv = \<lparr> json_file = ''code_summary_tree.json'', output_file = ''code_summary_tree.txt'' \<rparr>"

definition blank_world :: world where
  "blank_world = \<lparr> files = (\<lambda>p. None), stdout = [] \<rparr>"

definition old_world :: world where
  "old_world = \<lparr> files = (\<lambda>p. if p = ''code_summary_tree.txt'' then Some ''old'' else None), stdout = [] \<rparr>"

section \<open>Properties of the ignore filter\<close>

lemma ignore_loop_iff:
  "ignore_loop E rel pats =
     (\<exists>pattern \<in> set pats. fnmatch E rel pattern
        \<or> (endswith_slash pattern \<and> startswith rel (butlast pattern)))"
  by (induction pats) auto

text \<open>
  Claim C1. \<^verbatim>\<open>_should_ignore(p)\<close> is true exactly when the path of \<open>p\<close> relative to the root
  glob-matches some rule, or some rule ends with the separator and the relative path
  starts with that rule without its last character. The order in which the rule set is
  enumerated plays no part.
\<close>

theorem should_ignore_iff:
  "should_ignore E self p =
     (\<exists>rule \<in> set (ignore_patterns self).
        fnmatch E (relpath E p (root_dir self)) rule
        \<or> (rule \<noteq> [] \<and> last rule = sep
            \<and> prefix (butlast rule) (relpath E p (root_dir self))))"
  by (simp add: should_ignore_def Let_def ignore_loop_iff endswith_slash_def startswith_def sep_def)

theorem should_ignore_iff_witness:
  "should_ignore posix demo ''./build/out/a.py''
   \<and> should_ignore posix demo ''./src/a.pyc''
   \<and> \<not> should_ignore posix demo ''./src/a.py''"
  using should_ignore_iff[of posix demo "''./build/out/a.py''"]
    should_ignore_iff[of posix demo "''./src/a.pyc''"]
    should_ignore_iff[of posix demo "''./src/a.py''"]
  by (simp add: demo_def posix_def relpath_under_def sep_def)

section \<open>Properties of the tree builder\<close>


lemma split_sep_nonempty: "split_sep s \<noteq> []"
  by (induction s) (auto split: list.splits)

lemma join_split: "join_sep (split_sep s) = s"
proof (induction s)
  case Nil
  then show ?case by simp
next
  case (Cons c cs)
  show ?case
  proof (cases "split_sep cs")
    case Nil
    then show ?thesis using split_sep_nonempty by simp
  next
    case (Cons w ws)
    then show ?thesis using Cons.IH by (cases ws) auto
  qed
qed

lemma leaves_Node_Cons:
  "leaves (Node ((k, c) # items)) = map (under k) (leaves c) @ leaves (Node items)"
  by (simp add: under_def case_prod_unfold)

lemma leaves_Node_Nil: "leaves (Node []) = []"
  by simp

lemmas leaves_Node = leaves_Node_Nil leaves_Node_Cons

declare leaves.simps(2) [simp del]
declare leaves_Node [simp]

lemma head_is_under: "head_is k (under k' e) = (k = k')"
  by (auto simp: head_is_def under_def)

lemma in_leaves_Node:
  "e \<in> set (leaves (Node items)) \<longleftrightarrow> (\<exists>k c. (k, c) \<in> set items \<and> e \<in> under k ` set (leaves c))"
proof (induction items)
  case Nil
  then show ?case by simp
next
  case (Cons a items)
  obtain k' c' where a: "a = (k', c')" by (cases a)
  show ?case unfolding a using Cons.IH by auto
qed

lemma filter_mset_all: "(\<And>x. x \<in># M \<Longrightarrow> P x) \<Longrightarrow> filter_mset P M = M"
  by (induction M) auto

lemma filter_mset_none: "(\<And>x. x \<in># M \<Longrightarrow> \<not> P x) \<Longrightarrow> filter_mset P M = {#}"
  by (induction M) auto

lemma leaves_no_key:
  "k \<notin> fst ` set items \<Longrightarrow> e \<in> set (leaves (Node items)) \<Longrightarrow> \<not> head_is k e"
proof -
  assume nk: "k \<notin> fst ` set items" and e: "e \<in> set (leaves (Node items))"
  from e obtain k' c where kc: "(k', c) \<in> set items" and "e \<in> under k' ` set (leaves c)"
    unfolding in_leaves_Node by blast
  then obtain e' where "e = under k' e'" by blast
  moreover have "k \<noteq> k'" using nk kc by force
  ultimately show ?thesis by (simp add: head_is_under)
qed

lemma leaves_lookup:
  "distinct (map fst items) \<Longrightarrow> map_of items k = Some c \<Longrightarrow>
   filter_mset (head_is k) (mset (leaves (Node items))) = image_mset (under k) (mset (leaves c))"
proof (induction items)
  case Nil
  then show ?case by simp
next
  case (Cons a items)
  obtain k' c' where a: "a = (k', c')" by (cases a)
  show ?case
  proof (cases "k' = k")
    case True
    with Cons.prems a have c: "c' = c" and nk: "k \<notin> fst ` set items" by auto
    have 1: "filter_mset (head_is k) (image_mset (under k) (mset (leaves c))) = image_mset (under k) (mset (leaves c))"
      by (rule filter_mset_all) (auto simp: head_is_under)
    have 2: "filter_mset (head_is k) (mset (leaves (Node items))) = {#}"
      by (rule filter_mset_none) (use leaves_no_key[OF nk] in auto)
    show ?thesis using True a c 1 2
      by (simp add: leaves_Node del: leaves.simps)
  next
    case False
    have 1: "filter_mset (head_is k) (image_mset (under k') (mset (leaves c'))) = {#}"
      by (rule filter_mset_none) (use False in \<open>auto simp: head_is_under\<close>)
    show ?thesis using Cons a False 1
      by (simp add: leaves_Node del: leaves.simps)
  qed
qed

lemma leaves_update:
  "distinct (map fst items) \<Longrightarrow>
   mset (leaves (Node (AList.update k c items))) =
     filter_mset (\<lambda>e. \<not> head_is k e) (mset (leaves (Node items))) + image_mset (under k) (mset (leaves c))"
proof (induction items)
  case Nil
  then show ?case by (simp add: leaves_Node del: leaves.simps)
next
  case (Cons a items)
  obtain k' c' where a: "a = (k', c')" by (cases a)
  show ?case
  proof (cases "k' = k")
    case True
    with Cons.prems a have nk: "k \<notin> fst ` set items" by auto
    have 1: "filter_mset (\<lambda>e. \<not> head_is k e) (mset (leaves (Node items))) = mset (leaves (Node items))"
      by (rule filter_mset_all) (use leaves_no_key[OF nk] in auto)
    have 2: "filter_mset (\<lambda>e. \<not> head_is k e) (image_mset (under k) (mset (leaves c'))) = {#}"
      by (rule filter_mset_none) (auto simp: head_is_under)
    show ?thesis using True a 1 2
      by (simp add: leaves_Node del: leaves.simps)
  next
    case False
    have 1: "filter_mset (\<lambda>e. \<not> head_is k e) (image_mset (under k') (mset (leaves c'))) = image_mset (under k') (mset (leaves c'))"
      by (rule filter_mset_all) (use False in \<open>auto simp: head_is_under\<close>)
    show ?thesis using Cons a False 1
      by (simp add: leaves_Node del: leaves.simps)
  qed
qed

lemma wf_tree_update:
  "wf_tree (Node items) \<Longrightarrow> wf_tree c \<Longrightarrow> wf_tree (Node (AList.update k c items))"
  by (induction items) (auto simp: update_keys)

lemma wf_tree_lookup:
  "wf_tree (Node items) \<Longrightarrow> map_of items k = Some c \<Longrightarrow> wf_tree c"
  by (induction items) (auto split: if_splits)

text \<open>The insertion succeeds whenever no leaf lies strictly above the path.\<close>

lemma insert_path_ok:
  assumes "wf_tree t" "ps \<noteq> []" "\<And>e. e \<in> set (leaves t) \<Longrightarrow> \<not> strict_prefix (fst e) ps"
  shows "\<exists>t'. insert_path ps s t = Inr t' \<and> wf_tree t' \<and>
           mset (leaves t') = filter_mset (\<lambda>e. \<not> prefix ps (fst e)) (mset (leaves t)) + {#(ps, s)#}"
  using assms
proof (induction ps arbitrary: t)
  case Nil
  then show ?case by simp
next
  case (Cons p ps')
  from Cons.prems(3) obtain items where t: "t = Node items"
    by (cases t) (auto simp: strict_prefix_def)
  have dist: "distinct (map fst items)" using Cons.prems(1) t by simp
  show ?case
  proof (cases ps')
    case Nil
    have eq: "\<And>e. prefix [p] (fst e) = head_is p e" by (simp add: head_is_def)
    show ?thesis using t Nil Cons.prems(1) leaves_update[OF dist, of p "Leaf s"]
      by (simp add: wf_tree_update eq under_def del: leaves.simps(2) wf_tree.simps(2))
  next
    case (Cons p' rest)
    define items1 where "items1 = (if p \<in> fst ` set items then items else AList.update p (Node []) items)"
    have wf1: "wf_tree (Node items1)"
    proof (cases "p \<in> fst ` set items")
      case True then show ?thesis using Cons.prems(1) t by (simp add: items1_def)
    next
      case False
      have "wf_tree (Node [])" by simp
      with Cons.prems(1) t have "wf_tree (Node (AList.update p (Node []) items))"
        by (intro wf_tree_update) simp_all
      then show ?thesis using False by (simp add: items1_def)
    qed
    then have dist1: "distinct (map fst items1)" by simp
    have L1: "mset (leaves (Node items1)) = mset (leaves (Node items))"
    proof (cases "p \<in> fst ` set items")
      case True then show ?thesis by (simp add: items1_def)
    next
      case False
      have "filter_mset (\<lambda>e. \<not> head_is p e) (mset (leaves (Node items))) = mset (leaves (Node items))"
        by (rule filter_mset_all) (use leaves_no_key[OF False] in auto)
      then show ?thesis using False leaves_update[OF dist, of p "Node []"]
        by (simp add: items1_def del: leaves.simps) 
    qed
    obtain child where child: "map_of items1 p = Some child"
    proof (cases "p \<in> fst ` set items")
      case True
      then obtain c where "map_of items p = Some c"
        by (metis domD dom_map_of_conv_image_fst)
      then show ?thesis using that True by (simp add: items1_def)
    next
      case False
      then show ?thesis using that by (simp add: items1_def update_conv)
    qed
    have wfc: "wf_tree child" using wf_tree_lookup[OF wf1 child] .
    have hc: "filter_mset (head_is p) (mset (leaves (Node items1))) = image_mset (under p) (mset (leaves child))"
      using leaves_lookup[OF dist1 child] .
    have nopre: "\<And>e. e \<in> set (leaves child) \<Longrightarrow> \<not> strict_prefix (fst e) ps'"
    proof
      fix e assume e: "e \<in> set (leaves child)" and sp: "strict_prefix (fst e) ps'"
      have "under p e \<in># filter_mset (head_is p) (mset (leaves (Node items1)))"
        using e by (simp only: hc) simp
      then have "under p e \<in> set (leaves t)" using L1 t
        by (metis mset_eq_setD set_mset_filter mem_Collect_eq set_mset_mset)
      from Cons.prems(3)[OF this] sp show False
        by (simp add: under_def strict_prefix_def)
    qed
    have ne: "ps' \<noteq> []" using Cons by simp
    from Cons.IH[OF wfc ne nopre] obtain child' where
      ins: "insert_path ps' s child = Inr child'" and wfc': "wf_tree child'" and
      lc': "mset (leaves child') = filter_mset (\<lambda>e. \<not> prefix ps' (fst e)) (mset (leaves child)) + {#(ps', s)#}"
      by blast
    have res: "insert_path (p # ps') s t = Inr (Node (AList.update p child' items1))"
      using t Cons child ins by (simp add: items1_def Let_def)
    have wfres: "wf_tree (Node (AList.update p child' items1))"
      using wf1 wfc' by (rule wf_tree_update)
    have part: "mset (leaves (Node items1)) =
        filter_mset (head_is p) (mset (leaves (Node items1))) + filter_mset (\<lambda>e. \<not> head_is p e) (mset (leaves (Node items1)))"
      by (rule multiset_partition)
    have A: "filter_mset (\<lambda>e. \<not> prefix (p # ps') (fst e)) (filter_mset (\<lambda>e. \<not> head_is p e) (mset (leaves (Node items1))))
           = filter_mset (\<lambda>e. \<not> head_is p e) (mset (leaves (Node items1)))"
      by (rule filter_mset_all) (auto simp: head_is_def prefix_def)
    have B: "filter_mset (\<lambda>e. \<not> prefix (p # ps') (fst e)) (image_mset (under p) (mset (leaves child)))
           = image_mset (under p) (filter_mset (\<lambda>e. \<not> prefix ps' (fst e)) (mset (leaves child)))"
      by (induction "leaves child") (auto simp: under_def filter_mset_image_mset)
    have "mset (leaves (Node (AList.update p child' items1))) =
        filter_mset (\<lambda>e. \<not> head_is p e) (mset (leaves (Node items1))) + image_mset (under p) (mset (leaves child'))"
      by (rule leaves_update[OF dist1])
    also have "\<dots> = filter_mset (\<lambda>e. \<not> head_is p e) (mset (leaves (Node items1)))
        + image_mset (under p) (filter_mset (\<lambda>e. \<not> prefix ps' (fst e)) (mset (leaves child))) + {#(p # ps', s)#}"
      by (simp add: lc' under_def)
    also have "\<dots> = filter_mset (\<lambda>e. \<not> prefix (p # ps') (fst e)) (mset (leaves (Node items1))) + {#(p # ps', s)#}"
    proof -
      have "filter_mset (\<lambda>e. \<not> prefix (p # ps') (fst e)) (mset (leaves (Node items1))) =
          filter_mset (\<lambda>e. \<not> prefix (p # ps') (fst e)) (filter_mset (head_is p) (mset (leaves (Node items1))))
        + filter_mset (\<lambda>e. \<not> prefix (p # ps') (fst e)) (filter_mset (\<lambda>e. \<not> head_is p e) (mset (leaves (Node items1))))"
        using arg_cong[OF part, of "filter_mset (\<lambda>e. \<not> prefix (p # ps') (fst e))"]
        by (simp only: filter_union_mset)
      then show ?thesis by (simp only: hc A B ac_simps)
    qed
    finally show ?thesis using res wfres L1 t by simp
  qed
qed


lemma insert_path_fail:
  assumes "wf_tree t" "e \<in> set (leaves t)" "strict_prefix (fst e) ps"
  shows "insert_path ps s t = Inl TypeError"
  using assms
proof (induction ps arbitrary: t e)
  case Nil
  then show ?case by simp
next
  case (Cons p ps')
  show ?case
  proof (cases t)
    case (Leaf x)
    then show ?thesis by (cases ps') simp_all
  next
    case (Node items)
    from Cons.prems(2) Node obtain k c e' where kc: "(k, c) \<in> set items"
      and e': "e' \<in> set (leaves c)" and e: "e = under k e'"
      by (auto simp: in_leaves_Node)
    from Cons.prems(3) e have kp: "k = p" and sp: "strict_prefix (fst e') ps'"
      by (auto simp: under_def strict_prefix_def)
    then obtain p' rest where ps': "ps' = p' # rest" by (cases ps') auto
    have "distinct (map fst items)" using Cons.prems(1) Node by simp
    with kc kp have look: "map_of items p = Some c" by simp
    have wfc: "wf_tree c" using wf_tree_lookup Cons.prems(1) Node look by blast
    have "insert_path ps' s c = Inl TypeError" using Cons.IH[OF wfc e' sp] .
    moreover have "p \<in> fst ` set items" using kc kp by force
    ultimately show ?thesis using Node ps' look by simp
  qed
qed

lemma insert_path_wf:
  assumes "wf_tree t" "insert_path ps s t = Inr t'"
  shows "wf_tree t'"
proof (cases "\<exists>e \<in> set (leaves t). strict_prefix (fst e) ps")
  case True
  then show ?thesis using insert_path_fail[OF assms(1)] assms(2) by fastforce
next
  case False
  have "ps \<noteq> []" using assms(2) by auto
  with insert_path_ok[OF assms(1), of ps s] False assms(2) show ?thesis by auto
qed

lemma build_loop_append:
  "build_loop (m @ m') t = (case build_loop m t of Inl e \<Rightarrow> Inl e | Inr t' \<Rightarrow> build_loop m' t')"
  by (induction m arbitrary: t) (auto split: sum.splits)

lemma build_loop_wf:
  "wf_tree t \<Longrightarrow> build_loop m t = Inr t' \<Longrightarrow> wf_tree t'"
proof (induction m arbitrary: t)
  case Nil
  then show ?case by simp
next
  case (Cons a m)
  obtain k s where a: "a = (k, s)" by (cases a)
  from Cons.prems(2) a obtain t1 where i: "insert_path (split_sep k) s t = Inr t1"
    and b: "build_loop m t1 = Inr t'"
    by (auto split: sum.splits)
  from insert_path_wf[OF Cons.prems(1) i] have "wf_tree t1" .
  from Cons.IH[OF this b] show ?case .
qed

lemma build_loop_ok:
  assumes "wf_tree t" "distinct (map fst m)"
    and "\<And>k e. k \<in> fst ` set m \<Longrightarrow> e \<in> set (leaves t) \<Longrightarrow>
            \<not> prefix (fst e) (split_sep k) \<and> \<not> prefix (split_sep k) (fst e)"
    and "\<And>p q. p \<in> fst ` set m \<Longrightarrow> q \<in> fst ` set m \<Longrightarrow> p \<noteq> q \<Longrightarrow>
            \<not> prefix (split_sep p) (split_sep q)"
  shows "\<exists>t'. build_loop m t = Inr t' \<and> wf_tree t' \<and>
           mset (leaves t') = mset (leaves t) + image_mset segs (mset m)"
  using assms
proof (induction m arbitrary: t)
  case Nil
  then show ?case by simp
next
  case (Cons a m)
  obtain k s where a: "a = (k, s)" by (cases a)
  have nsp: "\<And>e. e \<in> set (leaves t) \<Longrightarrow> \<not> strict_prefix (fst e) (split_sep k)"
    using Cons.prems(3)[of k] a by (auto simp: strict_prefix_def)
  from insert_path_ok[OF Cons.prems(1) split_sep_nonempty nsp, where s = s]
  obtain t1 where ins: "insert_path (split_sep k) s t = Inr t1" and wf1: "wf_tree t1"
    and l1: "mset (leaves t1) = filter_mset (\<lambda>e. \<not> prefix (split_sep k) (fst e)) (mset (leaves t)) + {#(split_sep k, s)#}"
    by blast
  have keep: "filter_mset (\<lambda>e. \<not> prefix (split_sep k) (fst e)) (mset (leaves t)) = mset (leaves t)"
    by (rule filter_mset_all) (use Cons.prems(3)[of k] a in auto)
  have l1': "mset (leaves t1) = mset (leaves t) + {#(split_sep k, s)#}"
    using l1 keep by simp
  have d: "distinct (map fst m)" and knm: "k \<notin> fst ` set m" using Cons.prems(2) a by auto
  have c3: "\<And>k' e. k' \<in> fst ` set m \<Longrightarrow> e \<in> set (leaves t1) \<Longrightarrow>
            \<not> prefix (fst e) (split_sep k') \<and> \<not> prefix (split_sep k') (fst e)"
  proof -
    fix k' e assume k': "k' \<in> fst ` set m" and e: "e \<in> set (leaves t1)"
    from e have "e \<in># mset (leaves t1)" by simp
    then have "e \<in> set (leaves t) \<or> e = (split_sep k, s)" unfolding l1' by auto
    then show "\<not> prefix (fst e) (split_sep k') \<and> \<not> prefix (split_sep k') (fst e)"
    proof
      assume "e \<in> set (leaves t)"
      then show ?thesis using Cons.prems(3)[of k' e] k' by simp
    next
      assume e: "e = (split_sep k, s)"
      have "k \<noteq> k'" using knm k' by auto
      then show ?thesis using Cons.prems(4)[of k k'] Cons.prems(4)[of k' k] k' a e by simp
    qed
  qed
  have c4: "\<And>p q. p \<in> fst ` set m \<Longrightarrow> q \<in> fst ` set m \<Longrightarrow> p \<noteq> q \<Longrightarrow>
            \<not> prefix (split_sep p) (split_sep q)"
    using Cons.prems(4) by simp
  from Cons.IH[OF wf1 d c3 c4] obtain t' where
    "build_loop m t1 = Inr t'" "wf_tree t'"
    "mset (leaves t') = mset (leaves t1) + image_mset segs (mset m)"
    by blast
  moreover have "segs a = (split_sep k, s)" by (simp add: segs_def a)
  ultimately show ?case using a ins l1' by simp
qed

lemma count_leaves_Node_Cons:
  "count_leaves (Node ((k, c) # items)) = count_leaves c + count_leaves (Node items)"
  by simp

lemma count_leaves_items:
  "(\<And>k c. (k, c) \<in> set items \<Longrightarrow> count_leaves c = length (leaves c)) \<Longrightarrow>
   count_leaves (Node items) = length (leaves (Node items))"
proof (induction items)
  case Nil
  then show ?case by simp
next
  case (Cons a items)
  obtain k c where a: "a = (k, c)" by (cases a)
  have "count_leaves c = length (leaves c)" using Cons.prems[of k c] a by simp
  moreover have "count_leaves (Node items) = length (leaves (Node items))"
    using Cons.IH Cons.prems by auto
  ultimately show ?case unfolding a count_leaves_Node_Cons by simp
qed

lemma count_leaves_length: "count_leaves t = length (leaves t)"
proof (induction t)
  case (Leaf s)
  then show ?case by simp
next
  case (Node items)
  show ?case
  proof (rule count_leaves_items)
    fix k c assume "(k, c) \<in> set items"
    then show "count_leaves c = length (leaves c)"
      using Node.IH[of "(k, c)" c] by simp
  qed
qed

lemma join_sep_Cons:
  "join_sep (w # ws) = (if ws = [] then w else w @ sep # join_sep ws)"
  by (cases ws) auto

lemma join_sep_append:
  "xs \<noteq> [] \<Longrightarrow> prefix (join_sep xs) (join_sep (xs @ ys))"
proof (induction xs)
  case Nil
  then show ?case by simp
next
  case (Cons w ws)
  show ?case
  proof (cases "ws = []")
    case True
    then show ?thesis by (simp add: join_sep_Cons)
  next
    case False
    with Cons.IH show ?thesis by (simp add: join_sep_Cons)
  qed
qed

lemma split_prefix_imp_prefix:
  assumes "prefix (split_sep p) (split_sep q)"
  shows "prefix p q"
proof -
  from assms obtain r where "split_sep q = split_sep p @ r" by (auto simp: prefix_def)
  then have "prefix (join_sep (split_sep p)) (join_sep (split_sep q))"
    using join_sep_append[OF split_sep_nonempty, of p r] by simp
  then show ?thesis by (simp add: join_split)
qed

text \<open>
  Claim C2. For a flat mapping of \<open>N\<close> different paths of which none is a prefix of
  another, taken segment by segment (which asks less than the same of the path strings,
  by \<open>split_prefix_imp_prefix\<close>), \<^verbatim>\<open>generate_tree_structure\<close> returns a tree with exactly
  \<open>N\<close> leaves, and flattening that tree again, joining the segments with the separator,
  gives back the keys of the mapping, each with its summary.
\<close>

theorem generate_tree_structure_flatten:
  assumes "distinct (map fst mapping)"
    and "\<forall>p \<in> fst ` set mapping. \<forall>q \<in> fst ` set mapping.
           p \<noteq> q \<longrightarrow> \<not> prefix (split_sep p) (split_sep q)"
  shows "\<exists>t. generate_tree_structure mapping = Inr t
           \<and> count_leaves t = length mapping
           \<and> fst ` set (flatten t) = fst ` set mapping
           \<and> mset (flatten t) = mset mapping"
proof -
  have "wf_tree (Node [])" by simp
  from build_loop_ok[OF this assms(1)] assms(2)
  obtain t where b: "build_loop mapping (Node []) = Inr t"
    and l: "mset (leaves t) = image_mset segs (mset mapping)"
    by fastforce
  have "mset (flatten t) = image_mset (\<lambda>e. (join_sep (fst e), snd e)) (mset (leaves t))"
    by (simp add: flatten_def case_prod_unfold)
  also have "\<dots> = image_mset (\<lambda>e. e) (mset mapping)"
    unfolding l by (simp add: segs_def join_split multiset.map_comp comp_def)
  finally have m: "mset (flatten t) = mset mapping" by simp
  then have "set (flatten t) = set mapping" by (rule mset_eq_setD)
  moreover have "length (leaves t) = length mapping"
    using l by (metis size_mset size_image_mset)
  ultimately show ?thesis using b m
    by (simp add: generate_tree_structure_def count_leaves_length)
qed

theorem generate_tree_structure_flatten_witness:
  "generate_tree_structure [(''a.py'', ''desc A''), (''sub/b.py'', ''desc B'')]
     = Inr (Node [(''a.py'', Leaf ''desc A''), (''sub'', Node [(''b.py'', Leaf ''desc B'')])])
   \<and> count_leaves (Node [(''a.py'', Leaf ''desc A''), (''sub'', Node [(''b.py'', Leaf ''desc B'')])]) = 2
   \<and> flatten (Node [(''a.py'', Leaf ''desc A''), (''sub'', Node [(''b.py'', Leaf ''desc B'')])])
       = [(''a.py'', ''desc A''), (''sub/b.py'', ''desc B'')]"
proof -
  let ?m = "[(''a.py'', ''desc A''), (''sub/b.py'', ''desc B'')]"
  have d: "distinct (map fst ?m)" by simp
  have p: "\<forall>p \<in> fst ` set ?m. \<forall>q \<in> fst ` set ?m. p \<noteq> q \<longrightarrow> \<not> prefix (split_sep p) (split_sep q)"
    by (simp add: sep_def)
  let ?T = "Node [(''a.py'', Leaf ''desc A''), (''sub'', Node [(''b.py'', Leaf ''desc B'')])]"
  have e: "generate_tree_structure ?m = Inr ?T"
    by (simp add: generate_tree_structure_def sep_def)
  from generate_tree_structure_flatten[OF d p]
  obtain t where "generate_tree_structure ?m = Inr t" and c: "count_leaves t = length ?m"
    by blast
  with e have "t = ?T" by simp
  with c have "count_leaves ?T = 2" by simp
  moreover have "flatten ?T = ?m" by (simp add: flatten_def sep_def under_def)
  ultimately show ?thesis using e by simp
qed

text \<open>
  Claim C3, as the code has it. When a path is added whose proper prefix (in segments) is
  already a leaf of the tree built so far, that is a file first and then a directory of
  the same name, the walk steps into a string and \<^verbatim>\<open>generate_tree_structure\<close> raises
  \<^verbatim>\<open>TypeError\<close>, whatever follows in the mapping. Otherwise the insertion completes and the
  later entry wins: the new leaf takes the place of everything that was stored at or
  under its path (a directory first and then a file of the same name), and the other
  leaves stay.
\<close>

theorem generate_tree_structure_conflict:
  assumes "generate_tree_structure m = Inr t"
  shows "if (\<exists>e \<in> set (leaves t). strict_prefix (fst e) (split_sep k))
         then generate_tree_structure (m @ (k, s) # rest) = Inl TypeError
         else (\<exists>t'. generate_tree_structure (m @ [(k, s)]) = Inr t'
                \<and> mset (leaves t') =
                    filter_mset (\<lambda>e. \<not> prefix (split_sep k) (fst e)) (mset (leaves t))
                      + {#(split_sep k, s)#})"
proof -
  have b: "build_loop m (Node []) = Inr t"
    using assms by (simp add: generate_tree_structure_def)
  have "wf_tree (Node [])" by simp
  from build_loop_wf[OF this b] have wf: "wf_tree t" .
  show ?thesis
  proof (cases "\<exists>e \<in> set (leaves t). strict_prefix (fst e) (split_sep k)")
    case True
    then obtain e where "e \<in> set (leaves t)" "strict_prefix (fst e) (split_sep k)" by blast
    from insert_path_fail[OF wf this] have "insert_path (split_sep k) s t = Inl TypeError" .
    then show ?thesis using True b
      by (simp add: generate_tree_structure_def build_loop_append)
  next
    case False
    then have "\<And>e. e \<in> set (leaves t) \<Longrightarrow> \<not> strict_prefix (fst e) (split_sep k)" by blast
    from insert_path_ok[OF wf split_sep_nonempty this, where s = s]
    obtain t' where "insert_path (split_sep k) s t = Inr t'"
      "mset (leaves t') = filter_mset (\<lambda>e. \<not> prefix (split_sep k) (fst e)) (mset (leaves t))
                      + {#(split_sep k, s)#}"
      by blast
    then show ?thesis using False b
      by (simp add: generate_tree_structure_def build_loop_append)
  qed
qed

text \<open>
  The claim as it was stated fails in the order file, then directory: no tree is returned.
\<close>

theorem generate_tree_structure_conflict_counterexample:
  "\<not> (\<exists>t. generate_tree_structure [(''a'', ''file''), (''a/b'', ''inside'')] = Inr t)"
  by (simp add: generate_tree_structure_def sep_def)

theorem generate_tree_structure_conflict_witness:
  "generate_tree_structure [(''a'', ''file''), (''a/b'', ''inside'')] = Inl TypeError
   \<and> (\<exists>t'. generate_tree_structure [(''a/b'', ''inside''), (''a'', ''file'')] = Inr t'
         \<and> mset (leaves t') = {#([''a''], ''file'')#})"
proof -
  have 1: "generate_tree_structure [(''a'', ''file'')] = Inr (Node [(''a'', Leaf ''file'')])"
    by (simp add: generate_tree_structure_def sep_def)
  have 2: "generate_tree_structure [(''a/b'', ''inside'')]
            = Inr (Node [(''a'', Node [(''b'', Leaf ''inside'')])])"
    by (simp add: generate_tree_structure_def sep_def)
  have "generate_tree_structure [(''a'', ''file''), (''a/b'', ''inside'')] = Inl TypeError"
    using generate_tree_structure_conflict[OF 1, of "''a/b''" "''inside''" "[]"]
    by (simp add: sep_def under_def)
  moreover have "\<exists>t'. generate_tree_structure [(''a/b'', ''inside''), (''a'', ''file'')] = Inr t'
         \<and> mset (leaves t') = {#([''a''], ''file'')#}"
    using generate_tree_structure_conflict[OF 2, of "''a''" "''file''" "[]"]
    by (simp add: sep_def under_def)
  ultimately show ?thesis by blast
qed

section \<open>Properties of the summarizer\<close>

text \<open>The retry loop when every attempt fails.\<close>

lemma sleep_accepted:
  "sleep_raises E d = None \<Longrightarrow> sleep E d st = (Inr (), st\<lparr>trace := trace st @ [Sleep d]\<rparr>)"
  by (simp add: sleep_def)

lemma attempt_once_failed:
  assumes "sleep_raises E (retry_delay self) = None" "i < nat (max_retries self)"
    and "failed_attempt (api E (requests st) content fp)"
  shows "attempt_once E self content fp (int i) st =
           (Continue, st\<lparr>requests := requests st + 1,
                         trace := trace st @ [Request fp, Sleep (retry_delay self)]\<rparr>)
       \<or> Suc i = nat (max_retries self)
         \<and> attempt_once E self content fp (int i) st =
             (Return None, st\<lparr>requests := requests st + 1, trace := trace st @ [Request fp]\<rparr>)"
proof (cases "api E (requests st) content fp")
  case ApiError
  have "(int i < max_retries self - 1) = (Suc i \<noteq> nat (max_retries self))"
    using assms(2) by auto
  then show ?thesis using assms(1) ApiError
    by (simp add: attempt_once_def on_except_def sleep_accepted Let_def)
next
  case (Response reply)
  then have "strip reply = []" using assms(3) by (simp add: failed_attempt_def)
  then show ?thesis using assms(1) Response
    by (simp add: attempt_once_def sleep_accepted Let_def)
qed

lemma between_attempts_Suc:
  "0 < n \<Longrightarrow> [Request fp, Sleep d] @ between_attempts fp d n = between_attempts fp d (Suc n)"
  by (cases n) (simp_all add: between_attempts_def)

lemma retry_loop_failed:
  assumes "sleep_raises E (retry_delay self) = None" "i \<le> nat (max_retries self)"
    and "requests st = r0 + i"
    and "\<forall>k. i \<le> k \<and> k < nat (max_retries self) \<longrightarrow> failed_attempt (api E (r0 + k) content fp)"
  shows "\<exists>tail. filter is_request tail = []
           \<and> retry_loop E self content fp (map int [i ..< nat (max_retries self)]) st =
               (Inr None,
                st\<lparr>requests := r0 + nat (max_retries self),
                   trace := trace st
                     @ between_attempts fp (retry_delay self) (nat (max_retries self) - i) @ tail\<rparr>)"
  using assms
proof (induction "nat (max_retries self) - i" arbitrary: i st)
  case 0
  then have "i = nat (max_retries self)" by simp
  then show ?case using "0.prems"(3)
    by (intro exI[of _ "[]"]) (simp add: between_attempts_def)
next
  case (Suc m)
  let ?n = "nat (max_retries self)"
  let ?d = "retry_delay self"
  have lt: "i < ?n" using Suc.hyps(2) by simp
  then have up: "[i ..< ?n] = i # [Suc i ..< ?n]" by (simp add: upt_conv_Cons)
  have f: "failed_attempt (api E (requests st) content fp)"
    using Suc.prems(3,4) lt by simp
  from attempt_once_failed[OF Suc.prems(1) lt f]
  consider
    (go) "attempt_once E self content fp (int i) st =
           (Continue, st\<lparr>requests := requests st + 1, trace := trace st @ [Request fp, Sleep ?d]\<rparr>)"
  | (stop) "Suc i = ?n" "attempt_once E self content fp (int i) st =
             (Return None, st\<lparr>requests := requests st + 1, trace := trace st @ [Request fp]\<rparr>)"
    by blast
  then show ?case
  proof cases
    case stop
    then have "?n - i = 1" by simp
    then show ?thesis using stop up Suc.prems(3)
      by (intro exI[of _ "[]"]) (simp add: between_attempts_def)
  next
    case go
    let ?st1 = "st\<lparr>requests := requests st + 1, trace := trace st @ [Request fp, Sleep ?d]\<rparr>"
    have m: "m = ?n - Suc i" using Suc.hyps(2) by simp
    have r: "requests ?st1 = r0 + Suc i" using Suc.prems(3) by simp
    have le: "Suc i \<le> ?n" using lt by simp
    have all: "\<forall>k. Suc i \<le> k \<and> k < ?n \<longrightarrow> failed_attempt (api E (r0 + k) content fp)"
      using Suc.prems(4) by simp
    from Suc.hyps(1)[OF m Suc.prems(1) le r all] obtain tail where
      t: "filter is_request tail = []" and
      l: "retry_loop E self content fp (map int [Suc i ..< ?n]) ?st1 =
            (Inr None, ?st1\<lparr>requests := r0 + ?n,
               trace := trace ?st1 @ between_attempts fp ?d (?n - Suc i) @ tail\<rparr>)"
      by blast
    show ?thesis
    proof (cases "Suc i = ?n")
      case True
      then have "between_attempts fp ?d (?n - Suc i) = []" "between_attempts fp ?d (?n - i) = [Request fp]"
        by (simp_all add: between_attempts_def)
      then show ?thesis using go up l t
        by (intro exI[of _ "Sleep ?d # tail"]) (simp add: is_request_def)
    next
      case False
      then have pos: "0 < ?n - Suc i" using lt by simp
      have "?n - i = Suc (?n - Suc i)" using lt by simp
      with between_attempts_Suc[OF pos, of fp ?d]
      have "[Request fp, Sleep ?d] @ between_attempts fp ?d (?n - Suc i) = between_attempts fp ?d (?n - i)"
        by simp
      then have "trace st @ [Request fp, Sleep ?d] @ between_attempts fp ?d (?n - Suc i) @ tail
                 = trace st @ between_attempts fp ?d (?n - i) @ tail"
        by (metis append.assoc)
      then show ?thesis using go up l t
        by (intro exI[of _ tail]) simp
    qed
  qed
qed

lemma get_code_summary_failed:
  assumes "sleep_raises E (retry_delay self) = None"
    and "\<forall>k < nat (max_retries self). failed_attempt (api E (requests st + k) content fp)"
  shows "\<exists>tail. filter is_request tail = []
           \<and> get_code_summary E self content fp st =
               (Inr None,
                st\<lparr>requests := requests st + nat (max_retries self),
                   trace := trace st
                     @ between_attempts fp (retry_delay self) (nat (max_retries self)) @ tail\<rparr>)"
  using retry_loop_failed[of E self 0 st "requests st" content fp] assms
  by (simp add: get_code_summary_def)

lemma process_file_candidate_failed:
  assumes "sleep_raises E (retry_delay self) = None"
    and "\<forall>k < nat (max_retries self). failed_attempt (api E (requests st + k) content (path_join root file))"
  shows "fst (process_file E self root file (Some content) st) = Inr ()
       \<and> summaries (snd (process_file E self root file (Some content) st)) = summaries st"
proof -
  let ?st1 = "st\<lparr>trace := trace st @ [ReadFile (path_join root file)]\<rparr>"
  have "\<forall>k < nat (max_retries self). failed_attempt (api E (requests ?st1 + k) content (path_join root file))"
    using assms(2) by simp
  from get_code_summary_failed[OF assms(1) this] obtain tail where
    "get_code_summary E self content (path_join root file) ?st1 =
       (Inr None, ?st1\<lparr>requests := requests ?st1 + nat (max_retries self),
           trace := trace ?st1 @ between_attempts (path_join root file) (retry_delay self)
                                   (nat (max_retries self)) @ tail\<rparr>)"
    by blast
  then show ?thesis
    by (simp add: process_file_def Let_def read_file_content_def)
qed

text \<open>
  Claim C4, as the code has it. Let the delay be one \<^verbatim>\<open>time.sleep\<close> accepts, and let every
  attempt for a file fail (the request raises, or the reply is blank once stripped).
  Then \<^verbatim>\<open>get_code_summary\<close> sends exactly \<^verbatim>\<open>max_retries\<close> requests (none when that number
  is not positive) with one sleep of \<^verbatim>\<open>retry_delay\<close> seconds between any two consecutive
  ones, and returns \<open>None\<close>; nothing after the last request is a request.
  \<^verbatim>\<open>process_directory\<close> then adds no entry for the file and goes on with the next file.
\<close>

theorem all_attempts_fail:
  assumes "sleep_raises E (retry_delay self) = None"
    and "\<forall>k < nat (max_retries self).
           failed_attempt (api E (requests st + k) content (path_join root file))"
  shows "(\<exists>tail. filter is_request tail = []
           \<and> get_code_summary E self content (path_join root file) st =
               (Inr None,
                st\<lparr>requests := requests st + nat (max_retries self),
                   trace := trace st
                     @ between_attempts (path_join root file) (retry_delay self)
                         (nat (max_retries self)) @ tail\<rparr>))
       \<and> fst (process_file E self root file (Some content) st) = Inr ()
       \<and> summaries (snd (process_file E self root file (Some content) st)) = summaries st
       \<and> process_files E self root ((file, Some content) # rest) st =
           process_files E self root rest (snd (process_file E self root file (Some content) st))"
proof -
  note p = process_file_candidate_failed[OF assms]
  have "process_files E self root ((file, Some content) # rest) st =
           process_files E self root rest (snd (process_file E self root file (Some content) st))"
    using p by (cases "process_file E self root file (Some content) st") auto
  then show ?thesis using get_code_summary_failed[OF assms] p by simp
qed

text \<open>
  Without the condition on the delay the claim fails: with \<^verbatim>\<open>RETRY_DELAY=-1\<close> the first
  failed request is followed by a \<^verbatim>\<open>time.sleep\<close> that raises \<^verbatim>\<open>ValueError\<close> inside the
  \<^verbatim>\<open>except\<close> clause; one request has been sent, and the exception ends the whole run.
\<close>

theorem all_attempts_fail_counterexample:
  "get_code_summary posix neg_delay ''x = 1'' ''./a.py'' start
     = (Inl ValueError, \<lparr> summaries = [], requests = 1, trace = [Request ''./a.py''] \<rparr>)
   \<and> fst (process_directory posix neg_delay
            [(''a.py'', File (Some ''x = 1'')), (''b.py'', File (Some ''y = 2''))] start)
       = Inl ValueError"
  by code_simp

theorem all_attempts_fail_witness:
  "(\<exists>tail. filter is_request tail = []
      \<and> get_code_summary posix demo ''x = 1'' (path_join ''.'' ''a.py'') start =
          (Inr None, \<lparr> summaries = [], requests = 3,
                       trace = [Request ''./a.py'', Sleep 5, Request ''./a.py'', Sleep 5,
                                Request ''./a.py''] @ tail \<rparr>))
   \<and> (\<exists>tail. filter is_request tail = []
      \<and> get_code_summary posix_blank demo ''x = 1'' (path_join ''.'' ''a.py'') start =
          (Inr None, \<lparr> summaries = [], requests = 3,
                       trace = [Request ''./a.py'', Sleep 5, Request ''./a.py'', Sleep 5,
                                Request ''./a.py''] @ tail \<rparr>))
   \<and> fst (process_file posix demo ''.'' ''a.py'' (Some ''x = 1'') start) = Inr ()
   \<and> summaries (snd (process_file posix demo ''.'' ''a.py'' (Some ''x = 1'') start)) = []"
proof -
  have d: "sleep_raises posix (retry_delay demo) = None"
    by (simp add: demo_def posix_def cpython_sleep_def)
  have db: "sleep_raises posix_blank (retry_delay demo) = None"
    by (simp add: demo_def posix_blank_def cpython_sleep_def)
  have f: "\<forall>k < nat (max_retries demo).
             failed_attempt (api posix (requests start + k) ''x = 1'' (path_join ''.'' ''a.py''))"
    by (simp add: posix_def no_api_def failed_attempt_def)
  have s: "strip blank_reply = []" by code_simp
  have fb: "\<forall>k < nat (max_retries demo).
             failed_attempt (api posix_blank (requests start + k) ''x = 1'' (path_join ''.'' ''a.py''))"
    using s by (simp add: posix_blank_def blank_api_def failed_attempt_def)
  have b: "between_attempts (path_join ''.'' ''a.py'') (retry_delay demo) (nat (max_retries demo))
           = [Request ''./a.py'', Sleep 5, Request ''./a.py'', Sleep 5, Request ''./a.py'']"
    by code_simp
  have st: "start\<lparr>requests := requests start + nat (max_retries demo), trace := trace start @ x\<rparr>
            = \<lparr> summaries = [], requests = 3, trace = x \<rparr>" for x
    by (simp add: start_def demo_def)
  from all_attempts_fail[OF d f, of "[]"] all_attempts_fail[OF db fb, of "[]"]
  show ?thesis unfolding b st by (simp add: start_def)
qed

text \<open>What processing one file adds to the trace.\<close>

lemma sleep_trace: "\<exists>tr. trace (snd (sleep E d st)) = trace st @ tr"
  by (simp add: sleep_def split: option.splits)

lemma on_except_trace:
  "\<exists>tr. trace (snd (on_except E self attempt st)) = trace st @ tr"
  using sleep_trace[of E "retry_delay self" st]
  by (auto simp: on_except_def split: prod.splits sum.splits)

lemma attempt_once_trace:
  "\<exists>tr. trace (snd (attempt_once E self content fp attempt st)) = trace st @ tr"
proof -
  let ?st1 = "st\<lparr>requests := requests st + 1, trace := trace st @ [Request fp]\<rparr>"
  from on_except_trace[of E self attempt ?st1] obtain tr where
    o: "trace (snd (on_except E self attempt ?st1)) = trace ?st1 @ tr" by blast
  show ?thesis
  proof (cases "api E (requests st) content fp")
    case ApiError
    then show ?thesis using o by (simp add: attempt_once_def)
  next
    case (Response reply)
    show ?thesis
    proof (cases "sleep_raises E (retry_delay self)")
      case None
      then show ?thesis using Response by (simp add: attempt_once_def sleep_def Let_def)
    next
      case (Some e)
      then show ?thesis using Response o by (simp add: attempt_once_def sleep_def Let_def)
    qed
  qed
qed

lemma retry_loop_trace:
  "\<exists>tr. trace (snd (retry_loop E self content fp attempts st)) = trace st @ tr"
proof (induction attempts arbitrary: st)
  case Nil
  then show ?case by simp
next
  case (Cons a attempts)
  obtain r st' where o: "attempt_once E self content fp a st = (r, st')"
    by (cases "attempt_once E self content fp a st")
  from attempt_once_trace[of E self content fp a st] o obtain tr1 where
    t1: "trace st' = trace st @ tr1" by auto
  show ?case
  proof (cases r)
    case Continue
    from Cons.IH[of st'] obtain tr2 where
      "trace (snd (retry_loop E self content fp attempts st')) = trace st' @ tr2" by blast
    then show ?thesis using o Continue t1 by simp
  next
    case (Return x)
    then show ?thesis using o t1 by simp
  next
    case (Raise e)
    then show ?thesis using o t1 by simp
  qed
qed

lemma get_code_summary_trace:
  "\<exists>tr. trace (snd (get_code_summary E self content fp st)) = trace st @ tr"
  by (simp add: get_code_summary_def retry_loop_trace)

lemma process_file_cases:
  "if \<not> should_ignore E self (path_join root file)
        \<and> lower E (suffix_of (path_join root file)) \<in> set text_extensions
   then (\<exists>tr. trace (snd (process_file E self root file on_disk st))
                = trace st @ ReadFile (path_join root file) # tr)
   else process_file E self root file on_disk st = (Inr (), st)"
proof (cases "\<not> should_ignore E self (path_join root file)
        \<and> lower E (suffix_of (path_join root file)) \<in> set text_extensions")
  case False
  then show ?thesis by (auto simp: process_file_def is_text_file_def)
next
  case True
  let ?fp = "path_join root file"
  let ?st1 = "st\<lparr>trace := trace st @ [ReadFile ?fp]\<rparr>"
  have "\<exists>tr. trace (snd (process_file E self root file on_disk st)) = trace st @ ReadFile ?fp # tr"
  proof (cases on_disk)
    case None
    then show ?thesis using True
      by (simp add: process_file_def is_text_file_def read_file_content_def)
  next
    case (Some content)
    show ?thesis
    proof (cases "content = []")
      case True
      then show ?thesis using Some \<open>\<not> should_ignore E self ?fp \<and> _\<close>
        by (simp add: process_file_def is_text_file_def read_file_content_def)
    next
      case False
      obtain r st2 where g: "get_code_summary E self content ?fp ?st1 = (r, st2)"
        by (cases "get_code_summary E self content ?fp ?st1")
      from get_code_summary_trace[of E self content ?fp ?st1] g obtain tr where
        "trace st2 = trace st @ ReadFile ?fp # tr" by auto
      then show ?thesis using Some False True g
        by (auto simp: process_file_def is_text_file_def read_file_content_def Let_def
            split: sum.splits option.splits)
    qed
  qed
  then show ?thesis using True by simp
qed

text \<open>The final component of a joined path, and its suffix.\<close>

lemma split_sep_append:
  "split_sep (xs @ sep # ys) = split_sep xs @ split_sep ys"
proof (induction xs)
  case Nil
  then show ?case by simp
next
  case (Cons x xs)
  obtain w ws where w: "split_sep xs = w # ws"
    using split_sep_nonempty[of xs] by (cases "split_sep xs") auto
  show ?case using Cons.IH w by simp
qed

lemma split_sep_plain: "sep \<notin> set name \<Longrightarrow> split_sep name = [name]"
  by (induction name) auto

lemma path_name_join:
  assumes "name \<noteq> []" "sep \<notin> set name"
  shows "path_name (path_join root name) = name"
proof -
  have h: "hd name \<noteq> sep" using assms by (cases name) auto
  show ?thesis
  proof (cases "root = [] \<or> last root = sep")
    case False
    then show ?thesis using h assms
      by (simp add: path_name_def path_join_def split_sep_append split_sep_plain)
  next
    case True
    show ?thesis
    proof (cases "root = []")
      case True
      then show ?thesis using h assms
        by (simp add: path_name_def path_join_def split_sep_plain)
    next
      case False
      with True obtain r where "root = r @ [sep]"
        by (metis append_butlast_last_id)
      then show ?thesis using h assms
        by (simp add: path_name_def path_join_def split_sep_append split_sep_plain)
    qed
  qed
qed

lemma rfind_dot_none: "CHR ''.'' \<notin> set name \<Longrightarrow> rfind_dot name = None"
  by (induction name) auto

lemma rfind_dot_last:
  "CHR ''.'' \<notin> set ext \<Longrightarrow> rfind_dot (stem @ CHR ''.'' # ext) = Some (length stem)"
  by (induction stem) (auto simp: rfind_dot_none)

lemma suffix_of_extension:
  assumes "stem \<noteq> []" "ext \<noteq> []" "CHR ''.'' \<notin> set ext" "sep \<notin> set stem" "sep \<notin> set ext"
  shows "suffix_of (path_join root (stem @ CHR ''.'' # ext)) = CHR ''.'' # ext"
proof -
  have "sep \<notin> set (stem @ CHR ''.'' # ext)" using assms by (simp add: sep_def)
  then have "path_name (path_join root (stem @ CHR ''.'' # ext)) = stem @ CHR ''.'' # ext"
    by (intro path_name_join) simp_all
  then show ?thesis using assms
    by (simp add: suffix_of_def rfind_dot_last)
qed

lemma rfind_dot_end:
  "name \<noteq> [] \<Longrightarrow> last name = CHR ''.'' \<Longrightarrow> rfind_dot name = Some (length name - 1)"
  using rfind_dot_last[of "[]" "butlast name"] by (metis append_butlast_last_id empty_iff
      length_butlast list.set(1))

lemma suffix_of_none:
  assumes "name \<noteq> []" "sep \<notin> set name"
    and "CHR ''.'' \<notin> set (tl name) \<or> last name = CHR ''.''"
  shows "suffix_of (path_join root name) = []"
proof -
  have p: "path_name (path_join root name) = name"
    using assms(1,2) by (rule path_name_join)
  from assms(3) show ?thesis
  proof
    assume "last name = CHR ''.''"
    then show ?thesis using p assms(1) by (simp add: suffix_of_def rfind_dot_end)
  next
    assume t: "CHR ''.'' \<notin> set (tl name)"
    obtain c cs where n: "name = c # cs" using assms(1) by (cases name) auto
    then have "rfind_dot name = (if c = CHR ''.'' then Some 0 else None)"
      using t by (simp add: rfind_dot_none)
    then show ?thesis using p by (simp add: suffix_of_def)
  qed
qed

text \<open>Lower case and the comparison that ignores case.\<close>

lemma of_char_lt_256: "of_char c < (256::nat)"
  by (metis (no_types) of_char_mod_256 mod_less_divisor zero_less_numeral)

lemma ascii_lower_same_letter: "same_letter c (ascii_lower c)"
proof (cases "(65::nat) \<le> of_char c \<and> of_char c \<le> (90::nat)")
  case False
  then have "ascii_lower c = c" unfolding ascii_lower_def by (rule if_not_P)
  then show ?thesis by (simp add: same_letter_def)
next
  case True
  then have "of_char (char_of (of_char c + (32::nat))) = (of_char c + 32 :: nat)"
    by simp
  then show ?thesis using True
    by (simp add: ascii_lower_def same_letter_def is_letter_def)
qed

lemma same_letter_lower: "same_letter a b \<Longrightarrow> ascii_lower a = ascii_lower b"
proof -
  assume s: "same_letter a b"
  have up: "ascii_lower x = y" if "is_letter x" "is_letter y" "of_char x + (32::nat) = of_char y"
    for x y
  proof -
    from that have "(65::nat) \<le> of_char x \<and> of_char x \<le> (90::nat)"
      by (auto simp: is_letter_def)
    then have "ascii_lower x = char_of (of_char y :: nat)"
      using that(3) by (simp add: ascii_lower_def)
    then show ?thesis by simp
  qed
  have low: "ascii_lower y = y" if "is_letter x" "is_letter y" "of_char x + (32::nat) = of_char y"
    for x y
    using that by (auto simp: is_letter_def ascii_lower_def)
  from s show ?thesis
    unfolding same_letter_def using up low by metis
qed

lemma same_ignoring_case_lower:
  "same_ignoring_case a b \<Longrightarrow> map ascii_lower a = map ascii_lower b"
  unfolding same_ignoring_case_def
  by (induction a b rule: list_all2_induct) (auto dest: same_letter_lower)

lemma same_ignoring_case_map_lower: "same_ignoring_case s (map ascii_lower s)"
  unfolding same_ignoring_case_def
  by (induction s) (auto simp: ascii_lower_same_letter)

lemma same_ignoring_case_ascii:
  "same_ignoring_case a b \<Longrightarrow> is_ascii a = is_ascii b"
  unfolding same_ignoring_case_def is_ascii_def
  by (induction a b rule: list_all2_induct) (auto simp: same_letter_def is_letter_def)

lemma text_extensions_lower:
  "x \<in> set text_extensions \<Longrightarrow> is_ascii x \<and> map ascii_lower x = x"
proof -
  have "list_all (\<lambda>x. is_ascii x \<and> map ascii_lower x = x) text_extensions" by code_simp
  then show "x \<in> set text_extensions \<Longrightarrow> is_ascii x \<and> map ascii_lower x = x"
    by (simp add: list_all_iff)
qed

lemma lower_in_extensions:
  assumes "is_ascii s"
  shows "lower E s \<in> set text_extensions
           \<longleftrightarrow> (\<exists>x \<in> set text_extensions. same_ignoring_case s x)"
proof
  assume "lower E s \<in> set text_extensions"
  then have "map ascii_lower s \<in> set text_extensions" using assms by (simp add: lower_def)
  then show "\<exists>x \<in> set text_extensions. same_ignoring_case s x"
    using same_ignoring_case_map_lower by blast
next
  assume "\<exists>x \<in> set text_extensions. same_ignoring_case s x"
  then obtain x where x: "x \<in> set text_extensions" "same_ignoring_case s x" by blast
  then have "map ascii_lower s = x"
    using same_ignoring_case_lower text_extensions_lower by metis
  then show "lower E s \<in> set text_extensions" using assms x by (simp add: lower_def)
qed

text \<open>
  Claim C8. A file met by the traversal is selected (it is opened for reading, the first
  step of summarizing it) exactly when it is not ignored and the lower-cased extension
  of its path is in the fixed list; any other file is passed over with no effect at all,
  whatever its content. The extension of a name \<^verbatim>\<open>stem.ext\<close> is \<^verbatim>\<open>.ext\<close>, whatever the
  directory is called; a name with no dot after its first character, or one that ends
  in a dot, has no extension, and such a file is passed over.
  Lower-casing compares without regard to case: an ASCII extension passes exactly when
  it differs from an entry of the list at most in the case of its letters, and on
  any other text the answer is the one \<^verbatim>\<open>str.lower\<close> gives.
\<close>

theorem candidate_iff:
  "((\<exists>tr. trace (snd (process_file E self root file on_disk st))
            = trace st @ ReadFile (path_join root file) # tr)
     \<longleftrightarrow> \<not> should_ignore E self (path_join root file)
          \<and> lower E (suffix_of (path_join root file)) \<in> set text_extensions)
   \<and> (\<not> (\<not> should_ignore E self (path_join root file)
           \<and> lower E (suffix_of (path_join root file)) \<in> set text_extensions)
        \<longrightarrow> process_file E self root file on_disk st = (Inr (), st))
   \<and> (stem \<noteq> [] \<and> ext \<noteq> [] \<and> CHR ''.'' \<notin> set ext \<and> sep \<notin> set stem \<and> sep \<notin> set ext
        \<longrightarrow> suffix_of (path_join root (stem @ CHR ''.'' # ext)) = CHR ''.'' # ext)
   \<and> (name \<noteq> [] \<and> sep \<notin> set name
          \<and> (CHR ''.'' \<notin> set (tl name) \<or> last name = CHR ''.'')
        \<longrightarrow> suffix_of (path_join root name) = []
            \<and> process_file E self root name on_disk st = (Inr (), st))
   \<and> (is_ascii s
        \<longrightarrow> (lower E s \<in> set text_extensions
              \<longleftrightarrow> (\<exists>x \<in> set text_extensions. same_ignoring_case s x)))
   \<and> (\<not> is_ascii s \<longrightarrow> lower E s = unicode_lower E s)"
proof -
  have a: "(\<exists>tr. trace (snd (process_file E self root file on_disk st))
            = trace st @ ReadFile (path_join root file) # tr)
     \<longleftrightarrow> \<not> should_ignore E self (path_join root file)
          \<and> lower E (suffix_of (path_join root file)) \<in> set text_extensions"
    using process_file_cases[of E self root "file" on_disk st]
    by (cases "\<not> should_ignore E self (path_join root file)
          \<and> lower E (suffix_of (path_join root file)) \<in> set text_extensions") simp_all
  have b: "\<not> (\<not> should_ignore E self (path_join root file)
           \<and> lower E (suffix_of (path_join root file)) \<in> set text_extensions)
        \<longrightarrow> process_file E self root file on_disk st = (Inr (), st)"
    using process_file_cases[of E self root "file" on_disk st] by auto
  have c: "stem \<noteq> [] \<and> ext \<noteq> [] \<and> CHR ''.'' \<notin> set ext \<and> sep \<notin> set stem \<and> sep \<notin> set ext
        \<longrightarrow> suffix_of (path_join root (stem @ CHR ''.'' # ext)) = CHR ''.'' # ext"
    using suffix_of_extension by blast
  have "[] \<notin> set text_extensions" by (simp add: text_extensions_def)
  then have d: "name \<noteq> [] \<and> sep \<notin> set name
          \<and> (CHR ''.'' \<notin> set (tl name) \<or> last name = CHR ''.'')
        \<longrightarrow> suffix_of (path_join root name) = []
            \<and> process_file E self root name on_disk st = (Inr (), st)"
    using process_file_cases[of E self root name on_disk st] suffix_of_none[of name root]
    by (auto simp: lower_def is_ascii_def)
  have e: "is_ascii s
        \<longrightarrow> (lower E s \<in> set text_extensions
              \<longleftrightarrow> (\<exists>x \<in> set text_extensions. same_ignoring_case s x))"
    using lower_in_extensions by blast
  have f: "\<not> is_ascii s \<longrightarrow> lower E s = unicode_lower E s"
    by (simp add: lower_def)
  from a b c d e f show ?thesis by blast
qed

theorem candidate_iff_witness:
  "(\<exists>tr. trace (snd (process_file posix demo ''./src'' ''Main.PY'' (Some ''x = 1'') start))
           = trace start @ ReadFile (path_join ''./src'' ''Main.PY'') # tr)
   \<and> (\<exists>tr. trace (snd (process_file posix demo ''./src'' kelvin_name (Some ''x = 1'') start))
           = trace start @ ReadFile (path_join ''./src'' kelvin_name) # tr)
   \<and> process_file posix demo ''./src'' ''Makefile'' (Some ''all:'') start = (Inr (), start)
   \<and> process_file posix demo ''./src.py'' ''.py'' (Some ''x = 1'') start = (Inr (), start)
   \<and> process_file posix demo ''./build'' ''a.py'' (Some ''x = 1'') start = (Inr (), start)
   \<and> suffix_of (path_join ''./src.d'' (''Main'' @ CHR ''.'' # ''PY'')) = CHR ''.'' # ''PY''
   \<and> lower posix ''.PY'' \<in> set text_extensions"
proof -
  have 1: "\<not> should_ignore posix demo (path_join ''./src'' ''Main.PY'')
           \<and> lower posix (suffix_of (path_join ''./src'' ''Main.PY'')) \<in> set text_extensions"
    by code_simp
  have 2: "''Makefile'' \<noteq> [] \<and> sep \<notin> set ''Makefile''
           \<and> (CHR ''.'' \<notin> set (tl ''Makefile'') \<or> last ''Makefile'' = CHR ''.'')"
    by (simp add: sep_def)
  have 7: "''.py'' \<noteq> [] \<and> sep \<notin> set ''.py''
           \<and> (CHR ''.'' \<notin> set (tl ''.py'') \<or> last ''.py'' = CHR ''.'')"
    by (simp add: sep_def)
  have 3: "\<not> (\<not> should_ignore posix demo (path_join ''./build'' ''a.py'')
           \<and> lower posix (suffix_of (path_join ''./build'' ''a.py'')) \<in> set text_extensions)"
    by code_simp
  have 4: "\<not> should_ignore posix demo (path_join ''./src'' kelvin_name)
           \<and> lower posix (suffix_of (path_join ''./src'' kelvin_name)) \<in> set text_extensions"
    by code_simp
  have 5: "''Main'' \<noteq> [] \<and> ''PY'' \<noteq> [] \<and> CHR ''.'' \<notin> set ''PY'' \<and> sep \<notin> set ''Main''
           \<and> sep \<notin> set ''PY''"
    by (simp add: sep_def)
  have 6: "is_ascii ''.PY'' \<and> (\<exists>x \<in> set text_extensions. same_ignoring_case ''.PY'' x)"
    by code_simp
  note t1 = candidate_iff[of posix demo "''./src''" "''Main.PY''" "Some ''x = 1''" start
      "''Main''" "''PY''" "''Makefile''" "''.PY''"]
  note t2 = candidate_iff[of posix demo "''./src''" kelvin_name "Some ''x = 1''" start]
  note t3 = candidate_iff[of posix demo "''./src''" "''M''" "Some ''all:''" start
      "''Main''" "''PY''" "''Makefile''" "''.PY''"]
  note t4 = candidate_iff[of posix demo "''./build''" "''a.py''" "Some ''x = 1''" start]
  note t7 = candidate_iff[of posix demo "''./src.py''" "''M''" "Some ''x = 1''" start
      "''Main''" "''PY''" "''.py''" "''.PY''"]
  note t5 = candidate_iff[of posix demo "''./src.d''" "''M''" None start
      "''Main''" "''PY''" "''Makefile''" "''.PY''"]
  have c1: "\<exists>tr. trace (snd (process_file posix demo ''./src'' ''Main.PY'' (Some ''x = 1'') start))
           = trace start @ ReadFile (path_join ''./src'' ''Main.PY'') # tr"
    using 1 by (rule t1[THEN conjunct1, THEN iffD2])
  have c2: "\<exists>tr. trace (snd (process_file posix demo ''./src'' kelvin_name (Some ''x = 1'') start))
           = trace start @ ReadFile (path_join ''./src'' kelvin_name) # tr"
    using 4 by (rule t2[THEN conjunct1, THEN iffD2])
  have c3: "process_file posix demo ''./src'' ''Makefile'' (Some ''all:'') start = (Inr (), start)"
    using 2 by (rule t3[THEN conjunct2, THEN conjunct2, THEN conjunct2, THEN conjunct1, THEN mp,
          THEN conjunct2])
  have c7: "process_file posix demo ''./src.py'' ''.py'' (Some ''x = 1'') start = (Inr (), start)"
    using 7 by (rule t7[THEN conjunct2, THEN conjunct2, THEN conjunct2, THEN conjunct1, THEN mp,
          THEN conjunct2])
  have c4: "process_file posix demo ''./build'' ''a.py'' (Some ''x = 1'') start = (Inr (), start)"
    using 3 by (rule t4[THEN conjunct2, THEN conjunct1, THEN mp])
  have c5: "suffix_of (path_join ''./src.d'' (''Main'' @ CHR ''.'' # ''PY'')) = CHR ''.'' # ''PY''"
    using 5 by (rule t5[THEN conjunct2, THEN conjunct2, THEN conjunct1, THEN mp])
  have c6: "lower posix ''.PY'' \<in> set text_extensions"
    using 6[THEN conjunct2]
    by (rule t1[THEN conjunct2, THEN conjunct2, THEN conjunct2, THEN conjunct2, THEN conjunct1,
          THEN mp, OF 6[THEN conjunct1], THEN iffD2])
  from c1 c2 c3 c7 c4 c5 c6 show ?thesis by (intro conjI)
qed

text \<open>
  Claim C9. A file whose read gives the empty string is handled exactly as one whose
  read failed: no request is sent and the flat mapping stays as it was.
\<close>

theorem empty_file_skipped:
  "process_file E self root file (Some []) st = process_file E self root file None st
   \<and> fst (process_file E self root file (Some []) st) = Inr ()
   \<and> summaries (snd (process_file E self root file (Some []) st)) = summaries st
   \<and> requests (snd (process_file E self root file (Some []) st)) = requests st
   \<and> filter is_request (trace (snd (process_file E self root file (Some []) st)))
       = filter is_request (trace st)"
  by (simp add: process_file_def Let_def read_file_content_def is_request_def)

theorem empty_file_skipped_witness:
  "process_file posix demo ''.'' ''a.py'' (Some []) start =
     (Inr (), \<lparr> summaries = [], requests = 0, trace = [ReadFile ''./a.py''] \<rparr>)
   \<and> process_file posix demo ''.'' ''a.py'' None start =
     (Inr (), \<lparr> summaries = [], requests = 0, trace = [ReadFile ''./a.py''] \<rparr>)"
proof -
  have "process_file posix demo ''.'' ''a.py'' None start =
     (Inr (), \<lparr> summaries = [], requests = 0, trace = [ReadFile ''./a.py''] \<rparr>)"
    by code_simp
  with empty_file_skipped[of posix demo "''.''" "''a.py''" start] show ?thesis by simp
qed

section \<open>Properties of the traversal\<close>



lemma files_of_drop_dir: "files_of (drop_dir name entries) = files_of entries"
  by (induction entries rule: files_of.induct) (auto simp: drop_dir_def is_dir_def)

lemma dirs_of_drop_dir:
  "dirs_of (drop_dir name entries) = filter (\<lambda>(m, sub). m \<noteq> name) (dirs_of entries)"
  by (induction entries rule: dirs_of.induct) (auto simp: drop_dir_def is_dir_def)

lemma files_of_in_dir: "files_of (in_dir name f entries) = files_of entries"
  by (induction entries rule: files_of.induct) (auto simp: in_dir_def)

lemma dirs_of_in_dir:
  "dirs_of (in_dir name f entries)
     = map (\<lambda>(m, sub). if m = name then (m, f sub) else (m, sub)) (dirs_of entries)"
  by (induction entries rule: dirs_of.induct) (auto simp: in_dir_def)

lemma filter_ignored_name:
  "should_ignore E self (path_join root name) \<Longrightarrow>
   filter (\<lambda>(d, sub). \<not> should_ignore E self (path_join root d))
          (filter (\<lambda>(m, sub). m \<noteq> name) ds)
     = filter (\<lambda>(d, sub). \<not> should_ignore E self (path_join root d)) ds"
  by (induction ds) auto

lemma filter_map_dirs:
  "filter (\<lambda>(d, sub). P d) (map (\<lambda>(m, sub). if m = name then (m, f sub) else (m, sub)) ds)
     = map (\<lambda>(m, sub). if m = name then (m, f sub) else (m, sub)) (filter (\<lambda>(d, sub). P d) ds)"
  by (induction ds) (auto split: if_splits)

lemma walk_dirs_map:
  assumes "\<And>sub st. walk E self (path_join root name) (f sub) st
                      = walk E self (path_join root name) sub st"
  shows "walk_dirs E self root (map (\<lambda>(m, sub). if m = name then (m, f sub) else (m, sub)) ds) st
           = walk_dirs E self root ds st"
proof (induction ds arbitrary: st)
  case Nil
  then show ?case by simp
next
  case (Cons a ds)
  obtain d sub where a: "a = (d, sub)" by (cases a)
  show ?case using Cons.IH assms a
    by (auto split: prod.splits sum.splits)
qed

lemma walk_remove_at:
  assumes "names \<noteq> []" and "should_ignore E self (foldl path_join start_dir names)"
  shows "walk E self start_dir (remove_at names entries) st = walk E self start_dir entries st"
  using assms
proof (induction names arbitrary: start_dir entries st)
  case Nil
  then show ?case by simp
next
  case (Cons name names)
  show ?case
  proof (cases names)
    case Nil
    with Cons.prems(2) have ign: "should_ignore E self (path_join start_dir name)" by simp
    have "filter (\<lambda>(d, sub). \<not> should_ignore E self (path_join start_dir d))
            (dirs_of (drop_dir name entries))
        = filter (\<lambda>(d, sub). \<not> should_ignore E self (path_join start_dir d)) (dirs_of entries)"
      unfolding dirs_of_drop_dir by (rule filter_ignored_name[OF ign])
    then show ?thesis using Nil by (simp add: files_of_drop_dir)
  next
    case (Cons n' rest)
    have ih: "\<And>sub st. walk E self (path_join start_dir name) (remove_at names sub) st
                      = walk E self (path_join start_dir name) sub st"
      using Cons.IH[of "path_join start_dir name"] Cons.prems(2) Cons by simp
    have r: "remove_at (name # names) entries = in_dir name (remove_at names) entries"
      using Cons by simp
    show ?thesis unfolding r using walk_dirs_map[where f = "remove_at names", OF ih]
      by (simp add: files_of_in_dir dirs_of_in_dir filter_map_dirs split: prod.splits sum.splits)
  qed
qed


lemma visits_append: "visits (a @ b) = visits a @ visits b"
  by (simp add: visits_def)

lemma visits_simps:
  "visits [] = []" "visits (Visit d # tr) = d # visits tr"
  "visits (ReadFile p # tr) = visits tr" "visits (Request p # tr) = visits tr"
  "visits (Sleep n # tr) = visits tr"
  by (simp_all add: visits_def)

lemma on_except_visits:
  "visits (trace (snd (on_except E self attempt st))) = visits (trace st)"
  by (simp add: on_except_def sleep_def visits_append visits_simps split: option.splits)

lemma attempt_once_visits:
  "visits (trace (snd (attempt_once E self content fp attempt st))) = visits (trace st)"
  by (cases "api E (requests st) content fp")
     (simp_all add: attempt_once_def Let_def sleep_def on_except_visits visits_append visits_simps
        split: option.splits)

lemma retry_loop_visits:
  "visits (trace (snd (retry_loop E self content fp attempts st))) = visits (trace st)"
proof (induction attempts arbitrary: st)
  case Nil
  then show ?case by simp
next
  case (Cons a attempts)
  obtain r st' where o: "attempt_once E self content fp a st = (r, st')"
    by (cases "attempt_once E self content fp a st")
  with attempt_once_visits[of E self content fp a st]
  have v: "visits (trace st') = visits (trace st)" by simp
  show ?case using o v Cons.IH[of st'] by (cases r) simp_all
qed

lemma process_file_visits:
  "visits (trace (snd (process_file E self root file on_disk st))) = visits (trace st)"
proof -
  let ?fp = "path_join root file"
  let ?st1 = "st\<lparr>trace := trace st @ [ReadFile ?fp]\<rparr>"
  have v1: "visits (trace ?st1) = visits (trace st)"
    by (simp add: visits_append visits_simps)
  have g: "\<And>content. visits (trace (snd (get_code_summary E self content ?fp ?st1))) = visits (trace st)"
    using retry_loop_visits[of E self _ ?fp _ ?st1] v1 by (simp add: get_code_summary_def)
  show ?thesis
  proof (cases on_disk)
    case None
    then show ?thesis using v1 by (simp add: process_file_def Let_def read_file_content_def)
  next
    case (Some content)
    obtain r st2 where gs: "get_code_summary E self content ?fp ?st1 = (r, st2)"
      by (cases "get_code_summary E self content ?fp ?st1")
    with g[of content] have "visits (trace st2) = visits (trace st)" by simp
    then show ?thesis using Some v1 gs
      by (auto simp: process_file_def Let_def read_file_content_def
          split: sum.splits option.splits)
  qed
qed

lemma process_files_visits:
  "visits (trace (snd (process_files E self root fs st))) = visits (trace st)"
proof (induction fs arbitrary: st)
  case Nil
  then show ?case by simp
next
  case (Cons a fs)
  obtain fname on_disk where a: "a = (fname, on_disk)" by (cases a)
  obtain r st' where p: "process_file E self root fname on_disk st = (r, st')"
    by (cases "process_file E self root fname on_disk st")
  with process_file_visits[of E self root fname on_disk st]
  have v: "visits (trace st') = visits (trace st)" by simp
  show ?case using a p v Cons.IH[of st'] by (cases r) simp_all
qed


lemma walk_visits:
  "set (visits (trace (snd (walk E self root entries st))))
     \<subseteq> set (visits (trace st)) \<union> {root} \<union> {d. \<not> should_ignore E self d}"
  "(\<forall>(d, sub) \<in> set ds. \<not> should_ignore E self (path_join root d)) \<Longrightarrow>
   set (visits (trace (snd (walk_dirs E self root ds st))))
     \<subseteq> set (visits (trace st)) \<union> {d. \<not> should_ignore E self d}"
proof (induction E self root entries st and E self root ds st rule: walk_walk_dirs.induct)
  case (1 E self root entries st)
  let ?dirs = "filter (\<lambda>(d, sub). \<not> should_ignore E self (path_join root d)) (dirs_of entries)"
  let ?st0 = "st\<lparr>trace := trace st @ [Visit root]\<rparr>"
  obtain r st1 where p: "process_files E self root (files_of entries) ?st0 = (r, st1)"
    by (cases "process_files E self root (files_of entries) ?st0")
  with process_files_visits[of E self root "files_of entries" ?st0]
  have v: "visits (trace st1) = visits (trace st) @ [root]"
    by (simp add: visits_append visits_simps)
  show ?case
  proof (cases r)
    case (Inl e)
    then show ?thesis using p v by auto
  next
    case (Inr u)
    have "\<forall>(d, sub) \<in> set ?dirs. \<not> should_ignore E self (path_join root d)" by auto
    from "1.IH"[OF refl refl p[symmetric] Inr this] show ?thesis using p v Inr by auto
  qed
next
  case (2 E self root st)
  then show ?case by simp
next
  case (3 E self root d sub rest st)
  obtain r st' where w: "walk E self (path_join root d) sub st = (r, st')"
    by (cases "walk E self (path_join root d) sub st")
  have ni: "\<not> should_ignore E self (path_join root d)" using "3.prems" by simp
  from "3.IH"(1) w have v: "set (visits (trace st'))
     \<subseteq> set (visits (trace st)) \<union> {d. \<not> should_ignore E self d}"
    using ni by auto
  show ?case
  proof (cases r)
    case (Inl e)
    then show ?thesis using w v by simp
  next
    case (Inr u)
    have "\<forall>(d, sub) \<in> set rest. \<not> should_ignore E self (path_join root d)"
      using "3.prems" by simp
    from "3.IH"(2)[OF w[symmetric] Inr this] v show ?thesis using w Inr by auto
  qed
qed

text \<open>
  Claim C5. The traversal never yields a directory that matched an ignore rule (the
  start directory, which is not tested, apart), and nothing at or below such a directory
  has any part in the run: with the directory taken off the disk, the run visits, reads,
  requests, sleeps, records and ends exactly as it does with it.
\<close>

theorem ignored_subtree_excluded:
  "(\<forall>d \<in> set (visits (trace (snd (process_directory E self entries st)))).
       d \<in> set (visits (trace st)) \<or> d = root_dir self \<or> \<not> should_ignore E self d)
   \<and> (\<forall>names. names \<noteq> [] \<and> should_ignore E self (foldl path_join (root_dir self) names)
         \<longrightarrow> process_directory E self (remove_at names entries) st
               = process_directory E self entries st)"
  using walk_visits(1)[of E self "root_dir self" entries st]
    walk_remove_at[of _ E self "root_dir self" entries st]
  by (auto simp: process_directory_def)

theorem ignored_subtree_excluded_witness:
  "process_directory posix demo (remove_at [''build''] tree1) start
     = process_directory posix demo tree1 start
   \<and> remove_at [''build''] tree1
       = [(''a.py'', File (Some ''x = 1'')),
          (''src'', Dir [(''b.py'', File (Some [])), (''build'', Dir [(''c.py'', File None)])])]
   \<and> visits (trace (snd (process_directory posix demo tree1 start)))
       = [''.'', ''./src'', ''./src/build'']"
proof -
  have i: "[''build''] \<noteq> [] \<and> should_ignore posix demo (foldl path_join (root_dir demo) [''build''])"
    by code_simp
  have r: "remove_at [''build''] tree1
       = [(''a.py'', File (Some ''x = 1'')),
          (''src'', Dir [(''b.py'', File (Some [])), (''build'', Dir [(''c.py'', File None)])])]"
    by code_simp
  have v: "visits (trace (snd (process_directory posix demo tree1 start)))
       = [''.'', ''./src'', ''./src/build'']"
    by code_simp
  from ignored_subtree_excluded[of posix demo tree1 start] i
  have "process_directory posix demo (remove_at [''build''] tree1) start
     = process_directory posix demo tree1 start"
    by blast
  with r v show ?thesis by blast
qed

section \<open>Properties of the visualizer\<close>

lemma replace_newline_no_newline: "newline \<notin> set (replace_newline s)"
  by (induction s) (auto simp: replace_newline_def newline_def)

lemma renderable_ok: "renderable items \<Longrightarrow> snd (visualize_items items p) = None"
proof (induction items arbitrary: p rule: renderable.induct)
  case 1
  then show ?case by simp
next
  case (2 key sub rest)
  from "2.prems" have rs: "renderable sub" and rr: "renderable rest" by simp_all
  let ?np = "p @ (if rest = [] then indent_last else indent_mid)"
  obtain out r where s: "visualize_items sub ?np = (out, r)"
    by (cases "visualize_items sub ?np")
  with "2.IH"(1)[OF rs, of ?np] have r: "r = None" by simp
  obtain out' r' where t: "visualize_items rest p = (out', r')"
    by (cases "visualize_items rest p")
  with "2.IH"(2)[OF rr, of p] have r': "r' = None" by simp
  show ?case using s t r r' by (simp add: Let_def)
next
  case (3 key s rest)
  obtain out' r' where t: "visualize_items rest p = (out', r')"
    by (cases "visualize_items rest p")
  with "3.IH"[of p] "3.prems" have "r' = None" by simp
  then show ?case using t by (simp add: Let_def)
next
  case (4 key b rest)
  then show ?case by simp
qed

lemma renderable_items:
  "(\<And>k c. (k, c) \<in> set items \<Longrightarrow> (case to_json c of JObj sub \<Rightarrow> renderable sub | JStr s \<Rightarrow> True | JOther b \<Rightarrow> False))
   \<Longrightarrow> renderable (map (\<lambda>(k, child). (k, to_json child)) items)"
proof (induction items)
  case Nil
  then show ?case by simp
next
  case (Cons a items)
  obtain k c where a: "a = (k, c)" by (cases a)
  have r: "renderable (map (\<lambda>(k, child). (k, to_json child)) items)"
    using Cons.IH Cons.prems by auto
  have "case to_json c of JObj sub \<Rightarrow> renderable sub | JStr s \<Rightarrow> True | JOther b \<Rightarrow> False"
    using Cons.prems[of k c] a by simp
  then show ?case using a r by (cases "to_json c") simp_all
qed

lemma to_json_renderable:
  "case to_json t of JObj sub \<Rightarrow> renderable sub | JStr s \<Rightarrow> True | JOther b \<Rightarrow> False"
proof (induction t)
  case (Leaf s)
  then show ?case by simp
next
  case (Node items)
  have "renderable (map (\<lambda>(k, child). (k, to_json child)) items)"
  proof (rule renderable_items)
    fix k c assume "(k, c) \<in> set items"
    then show "case to_json c of JObj sub \<Rightarrow> renderable sub | JStr s \<Rightarrow> True | JOther b \<Rightarrow> False"
      using Node.IH[of "(k, c)" c] by simp
  qed
  then show ?case by simp
qed

lemma render_tree_ok:
  "snd (visualize_tree_recursive (to_json (Node items)) p) = None"
  using to_json_renderable[of "Node items"]
  by (simp add: visualize_tree_recursive_def renderable_ok)

text \<open>
  What the renderer does with a leaf: one line for it, ended by a line feed, holding the
  prefix, the connector, the key, four spaces and the summary stripped and with every
  line feed replaced by \<^verbatim>\<open>" | "\<close>. This holds for every leaf at any depth.
\<close>

lemma visualize_items_leaf:
  "visualize_items [(key, JStr s)] pfx = (leaf_line pfx connector_last key s @ [newline], None)"
  "visualize_items ((key, JStr s) # item # rest) pfx
     = (leaf_line pfx connector_mid key s @ [newline] @ fst (visualize_items (item # rest) pfx),
        snd (visualize_items (item # rest) pfx))"
  by (cases "visualize_items (item # rest) pfx"; simp add: Let_def leaf_line_def)+

lemma flattened_no_newline: "newline \<notin> set (replace_newline (strip s))"
  by (rule replace_newline_no_newline)

lemma flatten_example:
  "replace_newline (strip (''line1'' @ [newline] @ ''line2'' @ [newline])) = ''line1 | line2''"
  by code_simp

lemma output_ends_line:
  "fst (visualize_items items pfx) = [] \<or> last (fst (visualize_items items pfx)) = newline"
proof (induction items pfx rule: visualize_items.induct)
  case (1 pfx)
  then show ?case by simp
next
  case (2 key sub rest pfx)
  let ?np = "pfx @ (if rest = [] then indent_last else indent_mid)"
  obtain out r where o: "visualize_items sub ?np = (out, r)"
    by (cases "visualize_items sub ?np")
  obtain out' r' where o': "visualize_items rest pfx = (out', r')"
    by (cases "visualize_items rest pfx")
  have a: "out = [] \<or> last out = newline"
    using "2.IH"(1)[OF refl refl refl refl] o by simp
  show ?case
  proof (cases r)
    case (Some e)
    then show ?thesis using o a by (auto simp: Let_def)
  next
    case None
    have b: "out' = [] \<or> last out' = newline"
      using "2.IH"(2)[OF refl refl refl refl _ None] o o' None by simp
    show ?thesis using o o' None a b by (auto simp: Let_def last_append)
  qed
next
  case (3 key s rest pfx)
  obtain out' r' where o': "visualize_items rest pfx = (out', r')"
    by (cases "visualize_items rest pfx")
  have b: "out' = [] \<or> last out' = newline"
    using "3.IH"[OF refl refl refl refl] o' by simp
  show ?case using o' b by (auto simp: Let_def)
next
  case (4 key b rest pfx)
  then show ?case by simp
qed

lemma every_leaf_written:
  assumes "renderable items" "(key, s) \<in> set (leaves_of items)"
  shows "\<exists>before p c after.
           fst (visualize_items items pfx) = before @ leaf_line p c key s @ [newline] @ after
         \<and> (c = connector_last \<or> c = connector_mid)
         \<and> (before = [] \<or> last before = newline)"
  using assms
proof (induction items arbitrary: pfx rule: renderable.induct)
  case 1
  then show ?case by simp
next
  case (2 k sub rest)
  from "2.prems" have rs: "renderable sub" and rr: "renderable rest" by simp_all
  let ?conn = "if rest = [] then connector_last else connector_mid"
  let ?np = "pfx @ (if rest = [] then indent_last else indent_mid)"
  let ?line = "pfx @ ?conn @ k @ ''/'' @ [newline]"
  obtain out r where o: "visualize_items sub ?np = (out, r)"
    by (cases "visualize_items sub ?np")
  obtain out' r' where o': "visualize_items rest pfx = (out', r')"
    by (cases "visualize_items rest pfx")
  have r: "r = None" using renderable_ok[OF rs, of ?np] o by simp
  have f: "fst (visualize_items ((k, JObj sub) # rest) pfx) = ?line @ out @ out'"
    using o o' r by (simp add: Let_def)
  have oe: "out = [] \<or> last out = newline"
    using output_ends_line[of sub ?np] o by simp
  from "2.prems"(2) consider (a) "(key, s) \<in> set (leaves_of sub)" | (b) "(key, s) \<in> set (leaves_of rest)"
    by auto
  then show ?case
  proof cases
    case a
    from "2.IH"(1)[OF rs a, of ?np] o obtain before p c after where
      e: "out = before @ leaf_line p c key s @ [newline] @ after"
      and c: "c = connector_last \<or> c = connector_mid"
      and l: "before = [] \<or> last before = newline"
      by auto
    have "fst (visualize_items ((k, JObj sub) # rest) pfx)
          = (?line @ before) @ leaf_line p c key s @ [newline] @ (after @ out')"
      using f e by simp
    moreover have "last (?line @ before) = newline"
      using l by auto
    ultimately show ?thesis using c by blast
  next
    case b
    from "2.IH"(2)[OF rr b, of pfx] o' obtain before p c after where
      e: "out' = before @ leaf_line p c key s @ [newline] @ after"
      and c: "c = connector_last \<or> c = connector_mid"
      and l: "before = [] \<or> last before = newline"
      by auto
    have "fst (visualize_items ((k, JObj sub) # rest) pfx)
          = (?line @ out @ before) @ leaf_line p c key s @ [newline] @ after"
      using f e by simp
    moreover have "last (?line @ out @ before) = newline"
      using l oe by (auto simp: last_append)
    ultimately show ?thesis using c by blast
  qed
next
  case (3 k t rest)
  let ?conn = "if rest = [] then connector_last else connector_mid"
  obtain out' r' where o': "visualize_items rest pfx = (out', r')"
    by (cases "visualize_items rest pfx")
  have f: "fst (visualize_items ((k, JStr t) # rest) pfx) = leaf_line pfx ?conn k t @ [newline] @ out'"
    using o' by (simp add: Let_def leaf_line_def)
  from "3.prems"(2) consider (a) "key = k" "s = t" | (b) "(key, s) \<in> set (leaves_of rest)"
    by auto
  then show ?case
  proof cases
    case a
    have "fst (visualize_items ((k, JStr t) # rest) pfx) = [] @ leaf_line pfx ?conn key s @ [newline] @ out'"
      using f a by simp
    then show ?thesis by (metis (full_types))
  next
    case b
    from "3.prems"(1) have rr: "renderable rest" by simp
    from "3.IH"[OF rr b, of pfx] o' obtain before p c after where
      e: "out' = before @ leaf_line p c key s @ [newline] @ after"
      and c: "c = connector_last \<or> c = connector_mid"
      and l: "before = [] \<or> last before = newline"
      by auto
    have "fst (visualize_items ((k, JStr t) # rest) pfx)
          = (leaf_line pfx ?conn k t @ [newline] @ before) @ leaf_line p c key s @ [newline] @ after"
      using f e by simp
    moreover have "last (leaf_line pfx ?conn k t @ [newline] @ before) = newline"
      using l by auto
    ultimately show ?thesis using c by blast
  qed
next
  case (4 k b rest)
  then show ?case by simp
qed

text \<open>
  Claim C6, at a summary whose lines end in a carriage return and a line feed. Only the
  line feeds are replaced: the carriage return inside the summary is written to the
  output as it is, so the text of the leaf still holds a line break.
\<close>

theorem carriage_return_kept:
  "visualize_tree_recursive crlf_tree []
     = (connector_last @ ''src/'' @ [newline]
          @ ''    '' @ connector_last @ ''notes.md    line1'' @ [carriage_return] @ '' | line2''
          @ [newline], None)
   \<and> carriage_return \<in> set (leaf_line ''    '' connector_last ''notes.md''
                                 (''line1'' @ [carriage_return, newline] @ ''line2'' @ [newline]))"
  by code_simp

text \<open>
  What \<^verbatim>\<open>print_tree\<close> prints for a tree that is not empty: the text \<^verbatim>\<open>visualize\<close> writes to
  the output file and, after it, the line feed \<^verbatim>\<open>print\<close> adds to the rendered text.
\<close>

lemma print_tree_after_visualize:
  assumes "load_outcome V = Inr (to_json (Node items))" and "items \<noteq> []"
    and "open_error V = None"
  shows "\<exists>txt. files (visualize V self w) (output_file self) = Some txt
           \<and> print_tree V w = (None, w\<lparr>stdout := stdout w @ txt @ [newline]\<rparr>)"
proof -
  let ?data = "to_json (Node items)"
  obtain body r where b: "visualize_tree_recursive ?data [] = (body, r)"
    by (cases "visualize_tree_recursive ?data []")
  with render_tree_ok[of items "[]"] have r: "r = None" by simp
  have t: "truthy ?data" using assms(2) by simp
  let ?txt = "title @ [newline] @ rule_line @ [newline, newline] @ body"
  have "files (visualize V self w) (output_file self) = Some ?txt"
    using assms(1,3) b r t
    by (simp add: visualize_def load_json_def py_print_def Let_def del: to_json.simps)
  moreover have "print_tree V w = (None, w\<lparr>stdout := stdout w @ ?txt @ [newline]\<rparr>)"
    using assms(1) b r t
    by (simp add: print_tree_def load_json_def py_print_def Let_def del: to_json.simps)
  ultimately show ?thesis by blast
qed

text \<open>
  Claim C7, at the tree of a small run. The file written by \<^verbatim>\<open>visualize\<close> holds the two
  header lines, the blank line and the three lines of the tree; \<^verbatim>\<open>print_tree\<close> prints the
  same text and one line feed more, so the two texts are not the same.
\<close>

theorem print_tree_extra_newline:
  "files (visualize quiet tv blank_world) (output_file tv) = Some rendered_summary_tree
   \<and> fst (print_tree quiet blank_world) = None
   \<and> stdout (snd (print_tree quiet blank_world)) = rendered_summary_tree @ [newline]
   \<and> stdout (snd (print_tree quiet blank_world)) \<noteq> rendered_summary_tree"
  by code_simp

text \<open>
  Claim C10. When loading the input fails, or gives the empty object, \<^verbatim>\<open>load_json\<close>
  returns the empty dictionary in both cases, and \<^verbatim>\<open>visualize\<close> prints that there is no
  data and returns: no file is opened for writing, every file is as it was.
\<close>

theorem visualize_no_data:
  assumes "load_outcome V = Inl msg \<or> load_outcome V = Inr (JObj [])"
  shows "fst (load_json V w) = JObj []
       \<and> files (visualize V self w) = files w
       \<and> visualize V self w = py_print msg_no_data (snd (load_json V w))"
  using assms by (auto simp: visualize_def load_json_def py_print_def)

theorem visualize_no_data_witness:
  "fst (load_json missing old_world) = JObj []
   \<and> files (visualize missing tv old_world) (output_file tv) = Some ''old''
   \<and> fst (load_json (missing\<lparr>load_outcome := Inr (JObj [])\<rparr>) old_world) = JObj []
   \<and> files (visualize (missing\<lparr>load_outcome := Inr (JObj [])\<rparr>) tv old_world) (output_file tv)
       = Some ''old''"
proof -
  have a: "load_outcome missing = Inl ''No such file'' \<or> load_outcome missing = Inr (JObj [])"
    by (simp add: missing_def)
  have b: "load_outcome (missing\<lparr>load_outcome := Inr (JObj [])\<rparr>) = Inl ''No such file''
         \<or> load_outcome (missing\<lparr>load_outcome := Inr (JObj [])\<rparr>) = Inr (JObj [])"
    by simp
  have o: "files old_world (output_file tv) = Some ''old''"
    by (simp add: old_world_def tv_def)
  from visualize_no_data[OF a, of old_world tv]
  have 1: "fst (load_json missing old_world) = JObj []"
    and 2: "files (visualize missing tv old_world) = files old_world"
    by blast+
  from visualize_no_data[OF b, of old_world tv]
  have 3: "fst (load_json (missing\<lparr>load_outcome := Inr (JObj [])\<rparr>) old_world) = JObj []"
    and 4: "files (visualize (missing\<lparr>load_outcome := Inr (JObj [])\<rparr>) tv old_world)
              = files old_world"
    by blast+
  show ?thesis unfolding 1 2 3 4 using o by simp
qed

text \<open>
  The two programs together on a small example: the flat mapping of two files, the tree
  built from it, and the three lines rendered for that tree.
\<close>

lemma end_to_end_example:
  "generate_tree_structure [(''a.py'', ''desc A''), (''sub/b.py'', ''desc B'')]
     = Inr (Node [(''a.py'', Leaf ''desc A''), (''sub'', Node [(''b.py'', Leaf ''desc B'')])])
   \<and> visualize_tree_recursive
        (to_json (Node [(''a.py'', Leaf ''desc A''), (''sub'', Node [(''b.py'', Leaf ''desc B'')])])) []
     = (connector_mid @ ''a.py    desc A\<newline>''
          @ connector_last @ ''sub/\<newline>''
          @ ''    '' @ connector_last @ ''b.py    desc B\<newline>'', None)"
  by code_simp


end
